theory Spec2Isabelle
  imports Main "HOL-Library.Sublist" "HOL-Library.Multiset" "HOL-Library.Signed_Division"
begin

section \<open>Data model\<close>

text \<open>
  The plugin keeps a metadata table \<open>ncm_cache\<close> with primary key \<open>id\<close>, blob files
  under a cache directory, and three in-memory registries: \<open>searchSessions\<close>,
  \<open>rateLimitMap\<close> and \<open>downloadLocks\<close>. Its modules are index.ts (the file
  \<open>unnamed/part_003\<close> of the sources; the line numbers below are its lines), service.ts
  and database.ts (\<open>unnamed/part_002\<close>).

  JavaScript strings are modelled as \<open>string\<close>; optional fields (\<open>cachePath?\<close>,
  \<open>fileSize?\<close>, \<open>cacheTime?\<close>, also set to \<open>null\<close> by the code) as \<open>option\<close>;
  columns declared \<open>unsigned\<close> as \<open>nat\<close>. Arithmetic that subtracts is done in
  \<open>int\<close>, as JavaScript numbers do not truncate at zero.
\<close>

datatype error =
  DbError | DuplicateEntry | FsError | RemoteError | SyntaxError | RangeError | TypeError

text \<open>database.ts: \<open>interface MusicCache\<close>.\<close>

record MusicCache =
  mc_id :: string
  mc_name :: string
  mc_artist :: string
  url :: string
  cached :: bool
  cachePath :: "string option"
  fileSize :: "nat option"
  cacheTime :: "nat option"
  bitrate :: nat

text \<open>service.ts: \<open>interface SearchResult\<close> and \<open>interface SongUrl\<close>.\<close>

record SearchResult =
  song_id :: string
  song_name :: string
  song_artist :: string
  album :: string
  duration :: nat
  fee :: nat

record SongUrl =
  su_id :: string
  su_url :: string
  br :: nat
  su_size :: nat
  md5 :: string
  su_type :: string

datatype sendFormat = File | Audio

text \<open>index.ts: \<open>interface Config\<close> (the fields the modelled code reads).\<close>

record Config =
  bitrate_cfg :: nat
  searchTimeout :: int
  searchPageSize :: nat
  mergeSearchResults :: bool
  sendFormat_cfg :: sendFormat
  rateLimitEnabled :: bool
  rateLimitInterval :: int
  rateLimitGlobal :: bool
  cacheMaxSize :: int
  cachePath_cfg :: string

text \<open>
  What a requester sees: a text message (its i18n key), the delivered song (\<open>h.audio\<close> /
  \<open>h.file\<close> of a blob path), or the numbered candidate list of a search.
\<close>

datatype message = Text string | Song sendFormat string | Candidates "SearchResult list"

text \<open>
  The world the handlers act on. \<open>db\<close> is the table \<open>ncm_cache\<close> in storage order;
  \<open>faults\<close> is the schedule of the persistence collaborator: each database call takes
  the head, and \<open>True\<close> makes that call throw (an empty schedule is a healthy database).
  \<open>files\<close> are the blob paths that exist; \<open>undeletable\<close> are paths whose \<open>unlink\<close>
  is refused by the operating system. \<open>outbox\<close> collects \<open>session.send\<close> in order,
  \<open>writes\<close> the paths \<open>downloadSong\<close> wrote, in order.
\<close>

record world =
  db :: "MusicCache list"
  faults :: "bool list"
  files :: "string set"
  undeletable :: "string set"
  downloadLocks :: "string set"
  outbox :: "message list"
  writes :: "string list"

section \<open>Persistence and filesystem collaborators\<close>

definition db_call :: "world \<Rightarrow> bool \<times> world" where
  "db_call w = (case faults w of [] \<Rightarrow> (False, w) | f # fs \<Rightarrow> (f, w\<lparr>faults := fs\<rparr>))"

text \<open>\<open>ctx.database.get(table, query)\<close>: the rows matching the query.\<close>

definition database_get :: "(MusicCache \<Rightarrow> bool) \<Rightarrow> world \<Rightarrow> (error + MusicCache list) \<times> world" where
  "database_get q w =
     (case db_call w of
        (True, w') \<Rightarrow> (Inl DbError, w')
      | (False, w') \<Rightarrow> (Inr (filter q (db w')), w'))"

text \<open>
  A partial row (\<open>Partial<MusicCache>\<close>), as the object literals of the code write it:
  the fields that are present, in the order they are written. \<open>patch\<close> assigns them to a
  row.
\<close>

datatype field =
    F_id string
  | F_name string
  | F_artist string
  | F_url string
  | F_cached bool
  | F_cachePath "string option"
  | F_fileSize "nat option"
  | F_cacheTime "nat option"
  | F_bitrate nat

fun assign :: "field \<Rightarrow> MusicCache \<Rightarrow> MusicCache" where
  "assign (F_id v) r = r\<lparr>mc_id := v\<rparr>"
| "assign (F_name v) r = r\<lparr>mc_name := v\<rparr>"
| "assign (F_artist v) r = r\<lparr>mc_artist := v\<rparr>"
| "assign (F_url v) r = r\<lparr>url := v\<rparr>"
| "assign (F_cached v) r = r\<lparr>cached := v\<rparr>"
| "assign (F_cachePath v) r = r\<lparr>cachePath := v\<rparr>"
| "assign (F_fileSize v) r = r\<lparr>fileSize := v\<rparr>"
| "assign (F_cacheTime v) r = r\<lparr>cacheTime := v\<rparr>"
| "assign (F_bitrate v) r = r\<lparr>bitrate := v\<rparr>"

fun patch :: "field list \<Rightarrow> MusicCache \<Rightarrow> MusicCache" where
  "patch [] r = r"
| "patch (f # fs) r = patch fs (assign f r)"

fun is_primary :: "field \<Rightarrow> bool" where
  "is_primary (F_id v) = True"
| "is_primary (F_name v) = False"
| "is_primary (F_artist v) = False"
| "is_primary (F_url v) = False"
| "is_primary (F_cached v) = False"
| "is_primary (F_cachePath v) = False"
| "is_primary (F_fileSize v) = False"
| "is_primary (F_cacheTime v) = False"
| "is_primary (F_bitrate v) = False"

text \<open>
  \<open>ctx.database.set(table, {id}, update)\<close>: assign the fields of the update to every row
  with that id. The database service refuses an update that names the primary key
  (\<open>TypeError: cannot modify primary key\<close>) before it reaches the driver.
\<close>

definition database_set :: "string \<Rightarrow> field list \<Rightarrow> world \<Rightarrow> (error + unit) \<times> world" where
  "database_set i update w =
     (if list_ex is_primary update then (Inl TypeError, w)
      else
        (case db_call w of
           (True, w') \<Rightarrow> (Inl DbError, w')
         | (False, w') \<Rightarrow>
             (Inr (), w'\<lparr>db := map (\<lambda>r. if mc_id r = i then patch update r else r) (db w')\<rparr>)))"

text \<open>
  \<open>ctx.database.create(table, row)\<close>: insert a new row. The table is declared with
  \<open>primary: 'id'\<close>, so inserting a row whose id is already present is rejected
  (duplicate entry) and the table is left as it was.
\<close>

definition database_create :: "MusicCache \<Rightarrow> world \<Rightarrow> (error + unit) \<times> world" where
  "database_create row w =
     (case db_call w of
        (True, w') \<Rightarrow> (Inl DbError, w')
      | (False, w') \<Rightarrow>
          (if mc_id row \<in> set (map mc_id (db w')) then (Inl DuplicateEntry, w')
           else (Inr (), w'\<lparr>db := db w' @ [row]\<rparr>)))"

text \<open>\<open>fs.unlink(path)\<close> throws when the file is absent or cannot be removed.\<close>

definition fs_unlink :: "string \<Rightarrow> world \<Rightarrow> (error + unit) \<times> world" where
  "fs_unlink p w =
     (if p \<in> files w \<and> p \<notin> undeletable w then (Inr (), w\<lparr>files := files w - {p}\<rparr>)
      else (Inl FsError, w))"

text \<open>\<open>fs.access(path)\<close> throws when the file is absent.\<close>

definition fs_access :: "string \<Rightarrow> world \<Rightarrow> error + unit" where
  "fs_access p w = (if p \<in> files w then Inr () else Inl FsError)"

section \<open>CacheStore: \<open>getCacheTotalSize\<close> and \<open>cleanOldCache\<close>\<close>

text \<open>\<open>c.fileSize || 0\<close> and \<open>c.cacheTime || 0\<close>.\<close>

definition fileSize_or0 :: "MusicCache \<Rightarrow> nat" where
  "fileSize_or0 c = (case fileSize c of None \<Rightarrow> 0 | Some n \<Rightarrow> n)"

definition cacheTime_or0 :: "MusicCache \<Rightarrow> nat" where
  "cacheTime_or0 c = (case cacheTime c of None \<Rightarrow> 0 | Some n \<Rightarrow> n)"

text \<open>
  index.ts 208-215:
  \<^verbatim>\<open>
  async function getCacheTotalSize(): Promise<number> {
    try {
      const caches = await ctx.database.get('ncm_cache', { cached: true })
      return caches.reduce((sum, c) => sum + (c.fileSize || 0), 0)
    } catch { return 0 }
  }
  \<close>
\<close>

definition getCacheTotalSize :: "world \<Rightarrow> nat \<times> world" where
  "getCacheTotalSize w =
     (case database_get cached w of
        (Inl e, w') \<Rightarrow> (0, w')
      | (Inr caches, w') \<Rightarrow> (foldl (\<lambda>sum c. sum + fileSize_or0 c) 0 caches, w'))"

text \<open>
  The body of the sweep's \<open>try\<close> for one row (index.ts 228-236): unlink the blob when
  the row has a non-empty path, clear the row, and report whether both succeeded
  (only then is \<open>freedSpace\<close> increased); a failure is logged and swallowed.
  \<open>clear_row\<close> is the row that the update \<open>{cached: false, cachePath: null, fileSize: 0}\<close>
  leaves.
\<close>

definition clear_row :: "MusicCache \<Rightarrow> MusicCache" where
  "clear_row r = r\<lparr>cached := False, cachePath := None, fileSize := Some 0\<rparr>"

definition truthy_path :: "string option \<Rightarrow> bool" where
  "truthy_path p = (case p of None \<Rightarrow> False | Some s \<Rightarrow> s \<noteq> [])"

definition evict_row :: "MusicCache \<Rightarrow> world \<Rightarrow> bool \<times> world" where
  "evict_row c w =
     (case (if truthy_path (cachePath c) then fs_unlink (the (cachePath c)) w else (Inr (), w)) of
        (Inl e, w1) \<Rightarrow> (False, w1)
      | (Inr u, w1) \<Rightarrow>
          (case database_set (mc_id c)
                  [F_cached False, F_cachePath None, F_fileSize (Some 0)] w1 of
             (Inl e, w2) \<Rightarrow> (False, w2)
           | (Inr u, w2) \<Rightarrow> (True, w2)))"

text \<open>
  What the loop leaves behind besides the world: \<open>freedSpace\<close>, the rows it evicted in
  the order it evicted them, and the rows it had not reached when it stopped.
\<close>

record sweep_report =
  freedSpace :: nat
  evicted :: "MusicCache list"
  skipped :: "MusicCache list"

text \<open>
  index.ts 225-237, the \<open>for (const cache of caches)\<close> loop with its \<open>break\<close>.
\<close>

fun sweep :: "nat \<Rightarrow> nat \<Rightarrow> int \<Rightarrow> nat \<Rightarrow> MusicCache list \<Rightarrow> world \<Rightarrow> sweep_report \<times> world" where
  "sweep currentSize requiredSpace maxBytes freed [] w =
     (\<lparr>freedSpace = freed, evicted = [], skipped = []\<rparr>, w)"
| "sweep currentSize requiredSpace maxBytes freed (c # cs) w =
     (if int currentSize - int freed + int requiredSpace \<le> maxBytes
      then (\<lparr>freedSpace = freed, evicted = [], skipped = c # cs\<rparr>, w)
      else (case evict_row c w of
              (True, w1) \<Rightarrow>
                (case sweep currentSize requiredSpace maxBytes (freed + fileSize_or0 c) cs w1 of
                   (r, w2) \<Rightarrow> (r\<lparr>evicted := c # evicted r\<rparr>, w2))
            | (False, w1) \<Rightarrow> sweep currentSize requiredSpace maxBytes freed cs w1))"

text \<open>
  index.ts 217-238. The second \<open>database.get\<close> is outside any \<open>try\<close>, so its failure
  leaves \<open>cleanOldCache\<close> as an exception. \<open>caches.sort\<close> is stable.
\<close>

definition maxBytes_of :: "Config \<Rightarrow> int" where
  "maxBytes_of config = cacheMaxSize config * 1024 * 1024"

definition cleanOldCache :: "Config \<Rightarrow> nat \<Rightarrow> world \<Rightarrow> (error + sweep_report) \<times> world" where
  "cleanOldCache config requiredSpace w =
     (case getCacheTotalSize w of
        (currentSize, w1) \<Rightarrow>
          if int currentSize + int requiredSpace \<le> maxBytes_of config
          then (Inr \<lparr>freedSpace = 0, evicted = [], skipped = []\<rparr>, w1)
          else (case database_get cached w1 of
                  (Inl e, w2) \<Rightarrow> (Inl e, w2)
                | (Inr caches, w2) \<Rightarrow>
                    (case sweep currentSize requiredSpace (maxBytes_of config) 0
                            (sort_key cacheTime_or0 caches) w2 of
                       (r, w3) \<Rightarrow> (Inr r, w3))))"

text \<open>The sum \<open>getCacheTotalSize\<close> computes when its query succeeds.\<close>

definition cachedBytes :: "MusicCache list \<Rightarrow> nat" where
  "cachedBytes rows = sum_list (map fileSize_or0 (filter cached rows))"

text \<open>
  A row is evictable in a world when the body of the sweep succeeds on it there, and the
  evictable volume is the size of the cached rows that are.
\<close>

definition evictable :: "world \<Rightarrow> MusicCache \<Rightarrow> bool" where
  "evictable w c = fst (evict_row c w)"

definition evictableVolume :: "world \<Rightarrow> nat" where
  "evictableVolume w =
     sum_list (map fileSize_or0 (filter (evictable w) (filter cached (db w))))"

section \<open>FetchCoordinator: \<open>handleSongRequest\<close>\<close>

text \<open>
  The collaborators the handlers call and the model does not look into: the argument
  tokenizer \<open>parseArgs\<close>, the remote client (\<open>ncm.searchMusic\<close>, \<open>ncm.getSongUrl\<close>,
  and whether \<open>ncm.downloadSong\<close> of a URL succeeds), Node's \<open>path.resolve\<close>,
  \<open>path.dirname\<close> and \<open>path.basename\<close>, whether the optional \<open>ffmpeg\<close> service is
  present, and whether its run from an input path to an output path succeeds.
\<close>

record options =
  opt_audio :: bool
  opt_file :: bool
  opt_compress :: bool

record env =
  parseArgs :: "string \<Rightarrow> string \<times> options"
  searchMusic :: "string \<Rightarrow> nat \<Rightarrow> error + SearchResult list"
  getSongUrl :: "string \<Rightarrow> nat \<Rightarrow> error + SongUrl option"
  downloadSong :: "string \<Rightarrow> bool"
  path_resolve :: "string list \<Rightarrow> string"
  path_dirname :: "string \<Rightarrow> string"
  path_basename :: "string \<Rightarrow> string \<Rightarrow> string"
  ffmpeg :: bool
  ffmpeg_run :: "string \<Rightarrow> string \<Rightarrow> bool"

text \<open>The fields of a koishi \<open>Session\<close> the plugin reads.\<close>

record Session =
  platform :: string
  channelId :: "string option"
  userId :: string
  stripped_content :: "string option"
  content :: "string option"
  onebot :: bool

text \<open>\<open>session.send\<close>; the delivery collaborator is taken not to throw.\<close>

definition say :: "message \<Rightarrow> world \<Rightarrow> world" where
  "say m w = w\<lparr>outbox := outbox w @ [m]\<rparr>"

text \<open>
  index.ts 240-245 and 422-436, the transcoding branch of \<open>sendCachedSong\<close>: announce
  it, derive the output path beside the blob, and run ffmpeg, which reads the blob and
  writes the output file. A failing run is reported as \<open>compress-error\<close> and leaves no
  compressed path.
\<close>

definition compressAudio :: "env \<Rightarrow> string \<Rightarrow> string \<Rightarrow> world \<Rightarrow> (error + unit) \<times> world" where
  "compressAudio e inputPath outputPath w =
     (if inputPath \<in> files w \<and> ffmpeg_run e inputPath outputPath
      then (Inr (), w\<lparr>files := insert outputPath (files w)\<rparr>)
      else (Inl FsError, w))"

definition transcode :: "env \<Rightarrow> string \<Rightarrow> world \<Rightarrow> string option \<times> world" where
  "transcode e path w =
     (let w1 = say (Text ''compressing'') w;
          compressedPath =
            path_resolve e [path_dirname e path, path_basename e path ''.mp3'' @ ''_compressed.mp3'']
      in case compressAudio e path compressedPath w1 of
           (Inr u, w2) \<Rightarrow> (Some compressedPath, w2)
         | (Inl err, w2) \<Rightarrow> (None, say (Text ''compress-error'') w2))"

text \<open>
  index.ts 414-462, \<open>sendCachedSong\<close>. A row without a path ends in \<open>send-error\<close>. With
  \<open>compress\<close> and the ffmpeg service present the blob is transcoded first and the
  compressed file is the one delivered. For a OneBot session the file is read, and a file
  that cannot be read ends in \<open>send-error\<close>. The format is \<open>compress ? 'audio' :
  (sendFormatOverride ?? config.sendFormat)\<close>. After the delivery a compressed file is
  unlinked, and a failure of that unlink is ignored.
\<close>

definition sendCachedSong ::
  "env \<Rightarrow> Config \<Rightarrow> Session \<Rightarrow> MusicCache \<Rightarrow> sendFormat option \<Rightarrow> bool \<Rightarrow> world \<Rightarrow> world" where
  "sendCachedSong e config session cache sendFormatOverride compress w =
     (if \<not> truthy_path (cachePath cache) then say (Text ''send-error'') w
      else
        (case (if compress \<and> ffmpeg e then transcode e (the (cachePath cache)) w else (None, w)) of
           (compressedPath, w1) \<Rightarrow>
             (let filePath = (case compressedPath of Some c \<Rightarrow> c | None \<Rightarrow> the (cachePath cache))
              in if onebot session \<and> filePath \<notin> files w1 then say (Text ''send-error'') w1
                 else
                   (let format = (if compress then Audio
                                  else (case sendFormatOverride of
                                          Some f \<Rightarrow> f | None \<Rightarrow> sendFormat_cfg config));
                        w2 = say (Song format filePath) w1
                    in case compressedPath of
                         None \<Rightarrow> w2
                       | Some c \<Rightarrow> snd (fs_unlink c w2)))))"

text \<open>The character classes \<open>[a-zA-Z0-9]\<close> and \<open>[a-zA-Z0-9-]\<close>.\<close>

definition is_alnum :: "char \<Rightarrow> bool" where
  "is_alnum c = (let n = (of_char c :: nat) in
     (97 \<le> n \<and> n \<le> 122) \<or> (65 \<le> n \<and> n \<le> 90) \<or> (48 \<le> n \<and> n \<le> 57))"

definition is_id_char :: "char \<Rightarrow> bool" where
  "is_id_char c = (is_alnum c \<or> c = CHR ''-'')"

text \<open>index.ts 363: \<open>String(song.id).replace(/[^a-zA-Z0-9-]/g, '')\<close>.\<close>

definition sanitizeId :: "string \<Rightarrow> string" where
  "sanitizeId s = filter is_id_char s"

text \<open>
  What a request carries across its suspension points, and where it is suspended:
  \<open>Requested\<close> before line 343; \<open>Announcing\<close> at the \<open>await session.send\<close> of line 382
  (after the lock check of line 370, before \<open>downloadLocks.add\<close> of line 383);
  \<open>Downloading\<close> at the \<open>await ncm.downloadSong\<close> of line 387 (the download in flight).
\<close>

record pending =
  p_session :: Session
  p_song :: SearchResult
  p_cacheEntry :: "MusicCache option"
  p_urlInfo :: SongUrl
  p_sanitizedId :: string
  p_savePath :: string
  p_sendFormat :: "sendFormat option"
  p_compress :: bool

datatype stage =
    Requested Session SearchResult "sendFormat option" bool
  | Announcing pending
  | Downloading pending
  | Finished

text \<open>
  index.ts 358-382, run when \<open>getSongUrl\<close> has returned: sanitize the id, refuse an empty
  one, tell a requester whose id is locked that it is downloading, check the resolved
  path against the cache root, announce the download.
\<close>

definition admit ::
  "env \<Rightarrow> Config \<Rightarrow> Session \<Rightarrow> SearchResult \<Rightarrow> sendFormat option \<Rightarrow> bool \<Rightarrow>
   MusicCache option \<Rightarrow> SongUrl \<Rightarrow> world \<Rightarrow> stage \<times> world" where
  "admit e config session song fmt compress cacheEntry urlInfo w =
     (let sanitizedId = sanitizeId (song_id song) in
      if sanitizedId = [] then (Finished, say (Text ''download-error'') w)
      else if sanitizedId \<in> downloadLocks w then (Finished, say (Text ''downloading'') w)
      else
        (let savePath = path_resolve e [cachePath_cfg config, sanitizedId @ ''.mp3''] in
         if \<not> prefix (path_resolve e [cachePath_cfg config]) savePath
         then (Finished, say (Text ''download-error'') w)
         else (Announcing \<lparr>p_session = session, p_song = song, p_cacheEntry = cacheEntry,
                            p_urlInfo = urlInfo, p_sanitizedId = sanitizedId,
                            p_savePath = savePath, p_sendFormat = fmt, p_compress = compress\<rparr>,
               say (Text ''downloading'') w)))"

text \<open>index.ts 357-361: resolve the URL; a missing URL is \<open>song-unavailable\<close>.\<close>

definition resolve ::
  "env \<Rightarrow> Config \<Rightarrow> Session \<Rightarrow> SearchResult \<Rightarrow> sendFormat option \<Rightarrow> bool \<Rightarrow>
   MusicCache option \<Rightarrow> world \<Rightarrow> stage \<times> world" where
  "resolve e config session song fmt compress cacheEntry w =
     (case getSongUrl e (song_id song) (bitrate_cfg config) of
        Inl err \<Rightarrow> (Finished, say (Text ''download-error'') w)
      | Inr None \<Rightarrow> (Finished, say (Text ''song-unavailable'') w)
      | Inr (Some urlInfo) \<Rightarrow>
          if su_url urlInfo = [] then (Finished, say (Text ''song-unavailable'') w)
          else admit e config session song fmt compress cacheEntry urlInfo w)"

text \<open>
  index.ts 343-355: the cache check. A cached row whose blob is accessible is served; one
  whose blob is gone has \<open>cached\<close> and \<open>cachePath\<close> cleared and \<open>cacheEntry\<close> forgotten.
  A throwing database call goes to the outer \<open>catch\<close> (\<open>download-error\<close>).
\<close>

definition lookup ::
  "env \<Rightarrow> Config \<Rightarrow> Session \<Rightarrow> SearchResult \<Rightarrow> sendFormat option \<Rightarrow> bool \<Rightarrow> world \<Rightarrow>
   stage \<times> world" where
  "lookup e config session song fmt compress w =
     (case database_get (\<lambda>r. mc_id r = song_id song) w of
        (Inl err, w1) \<Rightarrow> (Finished, say (Text ''download-error'') w1)
      | (Inr cache, w1) \<Rightarrow>
          (let cacheEntry = (case cache of [] \<Rightarrow> None | c # cs \<Rightarrow> Some c) in
           case cacheEntry of
             None \<Rightarrow> resolve e config session song fmt compress None w1
           | Some c \<Rightarrow>
               if cached c \<and> truthy_path (cachePath c) then
                 (case fs_access (the (cachePath c)) w1 of
                    Inr u \<Rightarrow> (Finished, sendCachedSong e config session c fmt compress w1)
                  | Inl err \<Rightarrow>
                      (case database_set (song_id song)
                              [F_cached False, F_cachePath None] w1 of
                         (Inl err, w2) \<Rightarrow> (Finished, say (Text ''download-error'') w2)
                       | (Inr u, w2) \<Rightarrow> resolve e config session song fmt compress None w2))
               else resolve e config session song fmt compress (Some c) w1))"

definition release :: "string \<Rightarrow> world \<Rightarrow> world" where
  "release sanitizedId w = w\<lparr>downloadLocks := downloadLocks w - {sanitizedId}\<rparr>"

text \<open>
  index.ts 383-387: take the lock, make room, start the download. A throwing
  \<open>cleanOldCache\<close> goes to the inner \<open>catch\<close> and \<open>finally\<close>.
\<close>

definition begin_download :: "Config \<Rightarrow> pending \<Rightarrow> world \<Rightarrow> stage \<times> world" where
  "begin_download config p w =
     (case cleanOldCache config (su_size (p_urlInfo p))
             (w\<lparr>downloadLocks := insert (p_sanitizedId p) (downloadLocks w)\<rparr>) of
        (Inl err, w1) \<Rightarrow> (Finished, release (p_sanitizedId p) (say (Text ''download-error'') w1))
      | (Inr r, w1) \<Rightarrow> (Downloading p, w1))"

text \<open>
  index.ts 387-407: the download ends. On success the blob is written, the row is
  committed (\<open>set\<close> when \<open>cacheEntry\<close> is known, \<open>create\<close> otherwise) and the song is
  sent; any failure is \<open>download-error\<close>; the lock is released in every case.
\<close>

definition cacheData :: "pending \<Rightarrow> nat \<Rightarrow> MusicCache" where
  "cacheData p now =
     \<lparr>mc_id = song_id (p_song p), mc_name = song_name (p_song p),
      mc_artist = song_artist (p_song p), url = su_url (p_urlInfo p), cached = True,
      cachePath = Some (p_savePath p), fileSize = Some (su_size (p_urlInfo p)),
      cacheTime = Some now, bitrate = br (p_urlInfo p)\<rparr>"

text \<open>The keys of the object literal \<open>cacheData\<close>, which names every column.\<close>

definition fields_of :: "MusicCache \<Rightarrow> field list" where
  "fields_of r =
     [F_id (mc_id r), F_name (mc_name r), F_artist (mc_artist r), F_url (url r),
      F_cached (cached r), F_cachePath (cachePath r), F_fileSize (fileSize r),
      F_cacheTime (cacheTime r), F_bitrate (bitrate r)]"

definition finish_download :: "env \<Rightarrow> Config \<Rightarrow> nat \<Rightarrow> pending \<Rightarrow> world \<Rightarrow> stage \<times> world" where
  "finish_download e config now p w =
     (if \<not> downloadSong e (su_url (p_urlInfo p))
      then (Finished, release (p_sanitizedId p) (say (Text ''download-error'') w))
      else
        (let w1 = w\<lparr>files := insert (p_savePath p) (files w),
                     writes := writes w @ [p_savePath p]\<rparr> in
         case (case p_cacheEntry p of
                 Some c \<Rightarrow> database_set (song_id (p_song p)) (fields_of (cacheData p now)) w1
               | None \<Rightarrow> database_create (cacheData p now) w1) of
           (Inl err, w2) \<Rightarrow>
             (Finished, release (p_sanitizedId p) (say (Text ''download-error'') w2))
         | (Inr u, w2) \<Rightarrow>
             (Finished, release (p_sanitizedId p)
                (sendCachedSong e config (p_session p) (cacheData p now)
                   (p_sendFormat p) (p_compress p) w2))))"

text \<open>One request runs from a suspension point to the next.\<close>

fun advance :: "env \<Rightarrow> Config \<Rightarrow> nat \<Rightarrow> stage \<Rightarrow> world \<Rightarrow> stage \<times> world" where
  "advance e config now (Requested session song fmt compress) w =
     lookup e config session song fmt compress w"
| "advance e config now (Announcing p) w = begin_download config p w"
| "advance e config now (Downloading p) w = finish_download e config now p w"
| "advance e config now Finished w = (Finished, w)"

text \<open>\<open>handleSongRequest\<close> run alone, every \<open>await\<close> resumed at once.\<close>

definition handleSongRequest ::
  "env \<Rightarrow> Config \<Rightarrow> nat \<Rightarrow> Session \<Rightarrow> SearchResult \<Rightarrow> sendFormat option \<Rightarrow> bool \<Rightarrow> world \<Rightarrow>
   world" where
  "handleSongRequest e config now session song fmt compress w =
     (case advance e config now (Requested session song fmt compress) w of
        (s1, w1) \<Rightarrow>
          (case advance e config now s1 w1 of
             (s2, w2) \<Rightarrow> snd (advance e config now s2 w2)))"

text \<open>
  Concurrent requests: the suspended requests and the shared world. A schedule names, step
  by step, the request that is resumed next. A resumed request runs to its next recorded
  suspension point without interruption; the \<open>await\<close>s inside one stretch are resumed
  at once, which is one of the orders the event loop allows.
\<close>

definition resume :: "env \<Rightarrow> Config \<Rightarrow> nat \<Rightarrow> stage list \<times> world \<Rightarrow> nat \<Rightarrow> stage list \<times> world" where
  "resume e config now st i =
     (case st of (ts, w) \<Rightarrow>
        if i < length ts
        then (case advance e config now (ts ! i) w of (s, w') \<Rightarrow> (ts[i := s], w'))
        else (ts, w))"

definition schedule ::
  "env \<Rightarrow> Config \<Rightarrow> nat \<Rightarrow> nat list \<Rightarrow> stage list \<times> world \<Rightarrow> stage list \<times> world" where
  "schedule e config now order st = foldl (resume e config now) st order"

section \<open>Rate limiter and selection sessions\<close>

text \<open>
  index.ts 68-73 and 166-167. A pending \<open>setTimeout\<close> is an entry of \<open>timers\<close>: the time
  it is due and the session key its callback \<open>() => clearSearchSession(sessionKey)\<close> will
  clear; the handle a session stores is the entry's key. Times are \<open>Date.now()\<close> in
  milliseconds.
\<close>

record SearchSession =
  results :: "SearchResult list"
  timeout_handle :: nat
  ss_sendFormat :: "sendFormat option"
  ss_compress :: bool

record registry =
  searchSessions :: "string \<Rightarrow> SearchSession option"
  rateLimitMap :: "string \<Rightarrow> nat option"
  timers :: "nat \<Rightarrow> (int \<times> string) option"
  nextTimer :: nat

text \<open>\<open>session.channelId || session.userId\<close>.\<close>

definition channel_or_user :: "Session \<Rightarrow> string" where
  "channel_or_user session =
     (case channelId session of None \<Rightarrow> userId session
      | Some c \<Rightarrow> if c = [] then userId session else c)"

definition limiterKey :: "Config \<Rightarrow> Session \<Rightarrow> string" where
  "limiterKey config session =
     (if rateLimitGlobal config then ''global''
      else platform session @ '':'' @ channel_or_user session)"

text \<open>
  index.ts 186-194:
  \<^verbatim>\<open>
  function checkRateLimit(session: Session): boolean {
    if (!config.rateLimitEnabled) return true
    const key = config.rateLimitGlobal ? 'global' : `...`
    const now = Date.now()
    const lastCall = rateLimitMap.get(key) || 0
    if (now - lastCall < config.rateLimitInterval * 1000) return false
    rateLimitMap.set(key, now)
    return true
  }
  \<close>
\<close>

definition checkRateLimit :: "Config \<Rightarrow> Session \<Rightarrow> nat \<Rightarrow> registry \<Rightarrow> bool \<times> registry" where
  "checkRateLimit config session now reg =
     (if \<not> rateLimitEnabled config then (True, reg)
      else
        (let key = limiterKey config session;
             lastCall = (case rateLimitMap reg key of None \<Rightarrow> 0 | Some t \<Rightarrow> t)
         in if int now - int lastCall < rateLimitInterval config * 1000 then (False, reg)
            else (True, reg\<lparr>rateLimitMap := (rateLimitMap reg)(key \<mapsto> now)\<rparr>)))"

text \<open>index.ts 196-206.\<close>

definition getSessionKey :: "Session \<Rightarrow> string" where
  "getSessionKey session =
     platform session @ '':'' @ channel_or_user session @ '':'' @ userId session"

definition clearSearchSession :: "string \<Rightarrow> registry \<Rightarrow> registry" where
  "clearSearchSession sessionKey reg =
     (case searchSessions reg sessionKey of
        None \<Rightarrow> reg
      | Some session \<Rightarrow>
          reg\<lparr>timers := (timers reg)(timeout_handle session := None),
              searchSessions := (searchSessions reg)(sessionKey := None)\<rparr>)"

text \<open>
  \<open>setTimeout(() => clearSearchSession(sessionKey), delay)\<close> returns a fresh handle; a
  timer that is due and still pending fires by running its callback.
\<close>

definition setTimeout :: "string \<Rightarrow> int \<Rightarrow> nat \<Rightarrow> registry \<Rightarrow> nat \<times> registry" where
  "setTimeout sessionKey delay now reg =
     (nextTimer reg,
      reg\<lparr>timers := (timers reg)(nextTimer reg \<mapsto> (int now + delay, sessionKey)),
          nextTimer := Suc (nextTimer reg)\<rparr>)"

definition fireTimer :: "nat \<Rightarrow> nat \<Rightarrow> registry \<Rightarrow> registry" where
  "fireTimer handle now reg =
     (case timers reg handle of
        None \<Rightarrow> reg
      | Some (due, sessionKey) \<Rightarrow>
          if due \<le> int now
          then clearSearchSession sessionKey (reg\<lparr>timers := (timers reg)(handle := None)\<rparr>)
          else reg)"

text \<open>index.ts 277-281.\<close>

definition forcedSendFormat :: "options \<Rightarrow> sendFormat option" where
  "forcedSendFormat opts =
     (if opt_compress opts then Some Audio
      else if opt_audio opts then Some Audio
      else if opt_file opts then Some File
      else None)"

text \<open>
  index.ts 254-310, the action of the command \<open>ncmget\<close>. The result is the text the action
  returns for koishi to send (\<open>None\<close> for \<open>undefined\<close>), the registry and the world.
\<close>

definition ncmget ::
  "env \<Rightarrow> Config \<Rightarrow> nat \<Rightarrow> Session \<Rightarrow> options \<Rightarrow> string \<Rightarrow> registry \<Rightarrow> world \<Rightarrow>
   string option \<times> registry \<times> world" where
  "ncmget e config now session options keyword reg w =
     (if keyword = [] then (Some ''no-keyword'', reg, w)
      else
        (case checkRateLimit config session now reg of
           (False, reg1) \<Rightarrow> (None, reg1, w)
         | (True, reg1) \<Rightarrow>
             (case parseArgs e keyword of
                (kw, parsed) \<Rightarrow>
                  if kw = [] then (Some ''no-keyword'', reg1, w)
                  else
                    (let opts = \<lparr>opt_audio = opt_audio options \<or> opt_audio parsed,
                                 opt_file = opt_file options \<or> opt_file parsed,
                                 opt_compress = opt_compress options \<or> opt_compress parsed\<rparr>;
                         compress = opt_compress opts
                     in if compress \<and> \<not> ffmpeg e then (Some ''ffmpeg-missing'', reg1, w)
                        else
                          (let sessionKey = getSessionKey session in
                           case searchMusic e kw (searchPageSize config) of
                             Inl err \<Rightarrow> (Some ''search-error'', reg1, w)
                           | Inr rs \<Rightarrow>
                               if rs = [] then (Some ''no-results'', reg1, w)
                               else if length rs = 1
                               then (None, reg1,
                                     handleSongRequest e config now session (hd rs)
                                       (forcedSendFormat opts) compress w)
                               else
                                 (case setTimeout sessionKey (searchTimeout config * 1000) now reg1 of
                                    (timeout, reg2) \<Rightarrow>
                                      (None,
                                       reg2\<lparr>searchSessions := (searchSessions reg2)(sessionKey \<mapsto>
                                          \<lparr>results = rs, timeout_handle = timeout,
                                           ss_sendFormat = forcedSendFormat opts,
                                           ss_compress = compress\<rparr>)\<rparr>,
                                       say (Candidates rs) w)))))))"

text \<open>
  The reply a requester types: \<open>session.stripped?.content?.trim() ?? session.content?.trim()\<close>,
  the test \<open>/^\d+$/\<close> and \<open>parseInt\<close> of a string of decimal digits. Characters are
  code units below 256, so the white space \<open>trim\<close> removes is TAB, LF, VT, FF, CR, SPACE
  and NBSP. \<open>parseInt\<close> is exact here; JavaScript rounds beyond \<open>2^53\<close>, far above any
  candidate count.
\<close>

definition js_space :: "char \<Rightarrow> bool" where
  "js_space c = ((of_char c :: nat) \<in> {9, 10, 11, 12, 13, 32, 160})"

definition trim :: "string \<Rightarrow> string" where
  "trim s = rev (dropWhile js_space (rev (dropWhile js_space s)))"

definition reply_input :: "Session \<Rightarrow> string option" where
  "reply_input session =
     (case stripped_content session of
        Some c \<Rightarrow> Some (trim c)
      | None \<Rightarrow> (case content session of Some c \<Rightarrow> Some (trim c) | None \<Rightarrow> None))"

definition is_digit :: "char \<Rightarrow> bool" where
  "is_digit c = (48 \<le> (of_char c :: nat) \<and> (of_char c :: nat) \<le> 57)"

definition parseInt :: "string \<Rightarrow> nat" where
  "parseInt s = foldl (\<lambda>n c. 10 * n + (of_char c - 48)) 0 s"

text \<open>
  index.ts 314-337, the middleware that reads the choice. The boolean tells whether the
  message was consumed (\<open>False\<close> is \<open>return next()\<close>).
\<close>

definition middleware ::
  "env \<Rightarrow> Config \<Rightarrow> nat \<Rightarrow> Session \<Rightarrow> registry \<Rightarrow> world \<Rightarrow> bool \<times> registry \<times> world" where
  "middleware e config now session reg w =
     (let sessionKey = getSessionKey session in
      case searchSessions reg sessionKey of
        None \<Rightarrow> (False, reg, w)
      | Some searchSession \<Rightarrow>
          (case reply_input session of
             None \<Rightarrow> (False, reg, w)
           | Some input \<Rightarrow>
               if input = [] \<or> \<not> list_all is_digit input then (False, reg, w)
               else
                 (let index = int (parseInt input) - 1 in
                  if index = - 1
                  then (True, clearSearchSession sessionKey reg,
                        say (Text ''search-cancelled'') w)
                  else if 0 \<le> index \<and> index < int (length (results searchSession))
                  then (True, clearSearchSession sessionKey reg,
                        handleSongRequest e config now session
                          (results searchSession ! nat index)
                          (ss_sendFormat searchSession) (ss_compress searchSession) w)
                  else (False, reg, w))))"

text \<open>
  A run of the rate limiter over the call times of one requester, and the gate the
  specification describes: a call is rejected when less than the interval has elapsed
  since the last accepted call, and an accepted call becomes the last accepted one.
\<close>

fun gate_run :: "Config \<Rightarrow> Session \<Rightarrow> nat list \<Rightarrow> registry \<Rightarrow> bool list \<times> registry" where
  "gate_run config session [] reg = ([], reg)"
| "gate_run config session (t # ts) reg =
     (case checkRateLimit config session t reg of
        (ok, reg1) \<Rightarrow>
          (case gate_run config session ts reg1 of (oks, reg2) \<Rightarrow> (ok # oks, reg2)))"

fun gate_spec :: "int \<Rightarrow> nat \<Rightarrow> nat list \<Rightarrow> bool list" where
  "gate_spec interval prev [] = []"
| "gate_spec interval prev (t # ts) =
     (if int t - int prev < interval then False # gate_spec interval prev ts
      else True # gate_spec interval t ts)"

fun last_accepted_spec :: "int \<Rightarrow> nat \<Rightarrow> nat list \<Rightarrow> nat" where
  "last_accepted_spec interval prev [] = prev"
| "last_accepted_spec interval prev (t # ts) =
     (if int t - int prev < interval then last_accepted_spec interval prev ts
      else last_accepted_spec interval t ts)"

section \<open>CryptoEnvelope: \<open>weapi\<close>\<close>

text \<open>
  service.ts 112-123. \<open>bigint\<close> is \<open>int\<close>; \<open>%\<close> and \<open>/\<close> on \<open>bigint\<close> truncate towards zero
  (\<open>smod\<close>, \<open>sdiv\<close>) and throw a \<open>RangeError\<close> on a zero divisor, which only
  \<open>base % mod\<close> can meet.
  \<^verbatim>\<open>
  private powMod(base: bigint, exp: bigint, mod: bigint): bigint {
    let result = BigInt(1)
    base = base % mod
    while (exp > 0) {
      if (exp % BigInt(2) === BigInt(1)) { result = (result * base) % mod }
      exp = exp / BigInt(2)
      base = (base * base) % mod
    }
    return result
  }
  \<close>
\<close>

function powMod_loop :: "int \<Rightarrow> int \<Rightarrow> int \<Rightarrow> int \<Rightarrow> int" where
  "powMod_loop result base ex modulus =
     (if ex > 0
      then powMod_loop (if ex smod 2 = 1 then (result * base) smod modulus else result)
             ((base * base) smod modulus) (ex sdiv 2) modulus
      else result)"
  by pat_completeness auto
termination
  by (relation "measure (\<lambda>(result, base, ex, modulus). nat ex)")
     (auto simp: signed_divide_int_def sgn_if)

declare powMod_loop.simps [simp del]

definition powMod :: "int \<Rightarrow> int \<Rightarrow> int \<Rightarrow> error + int" where
  "powMod base ex modulus =
     (if modulus = 0 then Inl RangeError
      else Inr (powMod_loop 1 (base smod modulus) ex modulus))"

text \<open>
  The string and number helpers of \<open>rsaEncrypt\<close>: \<open>Buffer.from(s).toString('hex')\<close> (the
  UTF-8 bytes of the code units, two lower-case hex digits each), \<open>BigInt('0x' + hex)\<close>
  (a \<open>SyntaxError\<close> without digits), \<open>n.toString(16)\<close> and \<open>padStart\<close>.
\<close>

definition hexdigit :: "nat \<Rightarrow> char" where
  "hexdigit d = (if d < 10 then char_of (48 + d) else char_of (87 + d))"

definition hexval :: "char \<Rightarrow> nat option" where
  "hexval c = (let n = (of_char c :: nat) in
     if 48 \<le> n \<and> n \<le> 57 then Some (n - 48)
     else if 97 \<le> n \<and> n \<le> 102 then Some (n - 87)
     else if 65 \<le> n \<and> n \<le> 70 then Some (n - 55)
     else None)"

definition utf8 :: "char \<Rightarrow> nat list" where
  "utf8 c = (let n = (of_char c :: nat) in
     if n < 128 then [n] else [192 + n div 64, 128 + n mod 64])"

definition Buffer_from :: "string \<Rightarrow> nat list" where
  "Buffer_from s = concat (map utf8 s)"

definition toString_hex :: "nat list \<Rightarrow> string" where
  "toString_hex bytes = concat (map (\<lambda>b. [hexdigit (b div 16), hexdigit (b mod 16)]) bytes)"

fun parse_hex :: "int \<Rightarrow> string \<Rightarrow> int option" where
  "parse_hex n [] = Some n"
| "parse_hex n (c # cs) =
     (case hexval c of None \<Rightarrow> None | Some d \<Rightarrow> parse_hex (16 * n + int d) cs)"

definition BigInt_0x :: "string \<Rightarrow> error + int" where
  "BigInt_0x hex =
     (if hex = [] then Inl SyntaxError
      else (case parse_hex 0 hex of None \<Rightarrow> Inl SyntaxError | Some n \<Rightarrow> Inr n))"

function hex_of_nat :: "nat \<Rightarrow> string" where
  "hex_of_nat n = (if n < 16 then [hexdigit n] else hex_of_nat (n div 16) @ [hexdigit (n mod 16)])"
  by pat_completeness auto
termination
  by (relation "measure id") auto

declare hex_of_nat.simps [simp del]

definition toString16 :: "int \<Rightarrow> string" where
  "toString16 n = (if n < 0 then CHR ''-'' # hex_of_nat (nat (- n)) else hex_of_nat (nat n))"

definition padStart :: "nat \<Rightarrow> char \<Rightarrow> string \<Rightarrow> string" where
  "padStart n c s = replicate (n - length s) c @ s"

text \<open>service.ts 102-110, with its two constants.\<close>

definition rsa_modulus :: int where
  "rsa_modulus = 0x00e0b509f6259df8642dbc35662901477df22677ec152b5ff68ace615bb7b725152b3ab17a876aea8a5aa76d2e417629ec4ee341f56135fccf695280104e0312ecbda92557c93870114af6c9d05c4f7f0c3685b7a46bee255932575cce10b424d813cfe4875d3e82047b97ddef52741d546b8e289dc6935b3ece0462db0a22b8e7"

definition rsa_exponent :: int where
  "rsa_exponent = 0x010001"

definition rsaEncrypt :: "string \<Rightarrow> error + string" where
  "rsaEncrypt text =
     (let reversed = rev text;
          hex = toString_hex (Buffer_from reversed)
      in case BigInt_0x hex of
           Inl err \<Rightarrow> Inl err
         | Inr bi \<Rightarrow>
             (case powMod bi rsa_exponent rsa_modulus of
                Inl err \<Rightarrow> Inl err
              | Inr encrypted \<Rightarrow> Inr (padStart 256 (CHR ''0'') (toString16 encrypted))))"

text \<open>
  service.ts 97-100, \<open>aesEncrypt\<close>: the cipher \<open>crypto.createCipheriv('aes-128-cbc', key, iv)\<close>
  with base64 output is a parameter (key, iv, plain text); the IV is fixed.
\<close>

definition aesEncrypt :: "(string \<Rightarrow> string \<Rightarrow> string \<Rightarrow> string) \<Rightarrow> string \<Rightarrow> string \<Rightarrow> string" where
  "aesEncrypt cipher text key = cipher key ''0102030405060708'' text"

text \<open>
  \<open>encodeURIComponent\<close>: letters, digits and \<open>- _ . ! ~ * ' ( )\<close> stay, every other code
  unit becomes \<open>%XX\<close> for each of its UTF-8 bytes, in upper-case hex.
\<close>

definition unreserved :: "char \<Rightarrow> bool" where
  "unreserved c = (is_alnum c \<or> c \<in> set ''-_.!~*()'' \<or> of_char c = (39 :: nat))"

definition HEXDIGIT :: "nat \<Rightarrow> char" where
  "HEXDIGIT d = (if d < 10 then char_of (48 + d) else char_of (55 + d))"

definition encodeURIComponent :: "string \<Rightarrow> string" where
  "encodeURIComponent s =
     concat (map (\<lambda>c. if unreserved c then [c]
                       else concat (map (\<lambda>b. [CHR ''%'', HEXDIGIT (b div 16), HEXDIGIT (b mod 16)])
                                      (utf8 c))) s)"

text \<open>
  service.ts 85-95. \<open>JSON.stringify\<close> is a parameter; \<open>rand i\<close> is the \<open>i\<close>-th value of
  \<open>Math.floor(Math.random() * 62)\<close>.
\<close>

definition alphabet :: string where
  "alphabet = ''abcdefghijklmnopqrstuvwxyzABCDEFGHIJKLMNOPQRSTUVWXYZ0123456789''"

definition secKey_of :: "(nat \<Rightarrow> nat) \<Rightarrow> string" where
  "secKey_of rand = map (\<lambda>i. alphabet ! rand i) [0..<16]"

definition weapi ::
  "(string \<Rightarrow> string \<Rightarrow> string \<Rightarrow> string) \<Rightarrow> ('p \<Rightarrow> string) \<Rightarrow> (nat \<Rightarrow> nat) \<Rightarrow> 'p \<Rightarrow> error + string" where
  "weapi cipher stringify rand params =
     (let text = stringify params;
          secKey = secKey_of rand;
          encText = aesEncrypt cipher (aesEncrypt cipher text ''0CoJUm6Qyw8W8jud'') secKey
      in case rsaEncrypt secKey of
           Inl err \<Rightarrow> Inl err
         | Inr encSecKey \<Rightarrow>
             Inr (''params='' @ encodeURIComponent encText @
                  ''&encSecKey='' @ encodeURIComponent encSecKey))"

text \<open>
  The transform as the specification words it: the payload is serialized and enciphered
  twice, first under the shared secret and then under the random secret; the random
  secret is enciphered as the big integer of its bytes in reverse order, raised to the
  public exponent modulo the public modulus, in hex, left-padded with zeros to 256
  digits; the output is the two form fields.
\<close>

definition bigint_of_bytes :: "nat list \<Rightarrow> int" where
  "bigint_of_bytes bytes = foldl (\<lambda>n b. 256 * n + int b) 0 bytes"

definition envelope_spec ::
  "(string \<Rightarrow> string \<Rightarrow> string \<Rightarrow> string) \<Rightarrow> ('p \<Rightarrow> string) \<Rightarrow> string \<Rightarrow> 'p \<Rightarrow> string" where
  "envelope_spec cipher stringify secret params =
     ''params='' @
     encodeURIComponent
       (cipher secret ''0102030405060708''
          (cipher ''0CoJUm6Qyw8W8jud'' ''0102030405060708'' (stringify params))) @
     ''&encSecKey='' @
     encodeURIComponent
       (padStart 256 (CHR ''0'')
          (toString16 (bigint_of_bytes (rev (Buffer_from secret)) ^ 65537 mod rsa_modulus)))"
section \<open>Node's \<open>path.resolve\<close>\<close>










section \<open>Concrete scenarios\<close>

text \<open>A cached row with its blob under \<open>/c\<close>, and a configuration with a 1 MB budget.\<close>

definition blob :: "string \<Rightarrow> nat \<Rightarrow> nat \<Rightarrow> MusicCache" where
  "blob i sz t = \<lparr>mc_id = i, mc_name = ''n'', mc_artist = ''a'', url = ''u'', cached = True,
     cachePath = Some (''/c/'' @ i @ ''.mp3''), fileSize = Some sz, cacheTime = Some t,
     bitrate = 320000\<rparr>"

definition ex_config :: Config where
  "ex_config = \<lparr>bitrate_cfg = 320000, searchTimeout = 30, searchPageSize = 5,
     mergeSearchResults = False, sendFormat_cfg = File, rateLimitEnabled = True,
     rateLimitInterval = 2, rateLimitGlobal = True, cacheMaxSize = 1, cachePath_cfg = ''/c''\<rparr>"

definition ex_world :: world where
  "ex_world = \<lparr>db = [blob ''1'' 600000 30, blob ''2'' 300000 10, blob ''3'' 100000 20],
     faults = [], files = {''/c/1.mp3'', ''/c/2.mp3'', ''/c/3.mp3''}, undeletable = {},
     downloadLocks = {}, outbox = [], writes = []\<rparr>"

text \<open>
  A remote that finds three tracks for every keyword and resolves every id to a 400000-byte
  file that downloads; \<open>path.resolve\<close> for an absolute root and a plain file name,
  \<open>path.dirname\<close> and \<open>path.basename\<close> for the absolute path of a file in a directory.
\<close>

definition track :: "string \<Rightarrow> SearchResult" where
  "track i = \<lparr>song_id = i, song_name = ''n'', song_artist = ''a'', album = ''b'',
     duration = 1000, fee = 0\<rparr>"

definition ex_resolve :: "string list \<Rightarrow> string" where
  "ex_resolve segs = (case segs of [] \<Rightarrow> ''/'' | [root] \<Rightarrow> root | root # f # rest \<Rightarrow> root @ ''/'' @ f)"

definition ex_dirname :: "string \<Rightarrow> string" where
  "ex_dirname p = rev (tl (dropWhile (\<lambda>c. c \<noteq> CHR ''/'') (rev p)))"

definition ex_basename :: "string \<Rightarrow> string \<Rightarrow> string" where
  "ex_basename p ext =
     (let b = takeWhile (\<lambda>c. c \<noteq> CHR ''/'') (rev p)
      in rev (if prefix (rev ext) b then drop (length ext) b else b))"

definition ex_url :: "string \<Rightarrow> nat \<Rightarrow> SongUrl" where
  "ex_url i b = \<lparr>su_id = i, su_url = ''http://m/'' @ i, br = b, su_size = 400000, md5 = [],
     su_type = ''mp3''\<rparr>"

definition ex_env :: env where
  "ex_env = \<lparr>parseArgs = (\<lambda>s. (s, \<lparr>opt_audio = False, opt_file = False, opt_compress = False\<rparr>)),
     searchMusic = (\<lambda>kw n. Inr [track ''1'', track ''2'', track ''3'']),
     getSongUrl = (\<lambda>i b. Inr (Some (ex_url i b))),
     downloadSong = (\<lambda>u. True), path_resolve = ex_resolve,
     path_dirname = ex_dirname, path_basename = ex_basename, ffmpeg = False,
     ffmpeg_run = (\<lambda>i out. True)\<rparr>"

definition requester :: "string \<Rightarrow> Session" where
  "requester u = \<lparr>platform = ''p'', channelId = Some ''c'', userId = u,
     stripped_content = None, content = None, onebot = False\<rparr>"



text \<open>A request for track 7 suspended before its download, the remote announcing \<open>sz\<close> bytes.\<close>

definition ex_pending :: "nat \<Rightarrow> pending" where
  "ex_pending sz = \<lparr>p_session = requester ''u'', p_song = track ''7'', p_cacheEntry = None,
     p_urlInfo = (ex_url ''7'' 320000)\<lparr>su_size := sz\<rparr>, p_sanitizedId = ''7'',
     p_savePath = ''/c/7.mp3'', p_sendFormat = None, p_compress = False\<rparr>"

definition empty_world :: world where
  "empty_world = \<lparr>db = [], faults = [], files = {}, undeletable = {}, downloadLocks = {},
     outbox = [], writes = []\<rparr>"

definition empty_registry :: registry where
  "empty_registry = \<lparr>searchSessions = Map.empty, rateLimitMap = Map.empty, timers = Map.empty,
     nextTimer = 0\<rparr>"

definition no_options :: options where
  "no_options = \<lparr>opt_audio = False, opt_file = False, opt_compress = False\<rparr>"

definition typing :: "string \<Rightarrow> Session" where
  "typing text = (requester ''u'')\<lparr>content := Some text\<rparr>"

text \<open>
  Requester \<open>u\<close> has searched and holds a selection session with three candidates, whose
  timer is pending. \<open>search_twice\<close> is the registry after \<open>u\<close> searched at time
  1700000000000 and again 20 seconds later.
\<close>

definition three_tracks :: SearchSession where
  "three_tracks = \<lparr>results = [track ''1'', track ''2'', track ''3''], timeout_handle = 0,
     ss_sendFormat = None, ss_compress = False\<rparr>"

definition choosing :: registry where
  "choosing = \<lparr>searchSessions = [''p:c:u'' \<mapsto> three_tracks], rateLimitMap = Map.empty,
     timers = [0 \<mapsto> (1700000030000, ''p:c:u'')], nextTimer = 1\<rparr>"

definition search_twice :: registry where
  "search_twice =
     (case ncmget ex_env ex_config 1700000000000 (requester ''u'') no_options ''song''
             empty_registry empty_world of
        (r1, reg1, w1) \<Rightarrow>
          fst (snd (ncmget ex_env ex_config 1700000020000 (requester ''u'') no_options ''song''
                      reg1 w1)))"

section \<open>Properties of the cache store\<close>

lemmas eval_defs =
  cleanOldCache_def getCacheTotalSize_def database_get_def database_set_def database_create_def
  db_call_def maxBytes_of_def fileSize_or0_def cacheTime_or0_def evict_row_def truthy_path_def
  fs_unlink_def fs_access_def clear_row_def insert_Diff_if

lemma db_call_frame:
  "db_call w = (b, w') \<Longrightarrow> writes w' = writes w \<and> files w' = files w \<and> db w' = db w
     \<and> downloadLocks w' = downloadLocks w \<and> outbox w' = outbox w"
  by (auto simp: db_call_def split: list.splits)

lemma ex_sweep_run:
  "cleanOldCache ex_config 400000 ex_world =
     (Inr \<lparr>freedSpace = 400000, evicted = [blob ''2'' 300000 10, blob ''3'' 100000 20],
           skipped = [blob ''1'' 600000 30]\<rparr>,
      ex_world\<lparr>db := [blob ''1'' 600000 30, clear_row (blob ''2'' 300000 10),
                       clear_row (blob ''3'' 100000 20)],
               files := {''/c/1.mp3''}\<rparr>)"
  by (simp add: eval_defs ex_world_def ex_config_def blob_def)

lemma db_call_healthy: "faults w = [] \<Longrightarrow> db_call w = (False, w)"
  by (simp add: db_call_def)

lemma database_get_healthy: "faults w = [] \<Longrightarrow> database_get q w = (Inr (filter q (db w)), w)"
  by (simp add: database_get_def db_call_healthy)

lemma database_set_healthy:
  "faults w = [] \<Longrightarrow> \<not> list_ex is_primary upd \<Longrightarrow>
     database_set i upd w = (Inr (), w\<lparr>db := map (\<lambda>r. if mc_id r = i then patch upd r else r) (db w)\<rparr>)"
  by (simp add: database_set_def db_call_healthy)

lemma foldl_fileSize: "foldl (\<lambda>sum c. sum + fileSize_or0 c) a cs = a + sum_list (map fileSize_or0 cs)"
  by (induction cs arbitrary: a) auto

lemma sweep_shape:
  "sweep cur req mb freed cs w = (r, w') \<Longrightarrow> \<exists>pre. cs = pre @ skipped r \<and> subseq (evicted r) pre"
proof (induction cs arbitrary: freed w r w')
  case Nil
  then show ?case by auto
next
  case (Cons c cs)
  show ?case
  proof (cases "int cur - int freed + int req \<le> mb")
    case True
    with Cons.prems show ?thesis by auto
  next
    case False
    obtain ok w1 where ev: "evict_row c w = (ok, w1)" by (cases "evict_row c w")
    show ?thesis
    proof (cases ok)
      case True
      obtain r2 w2 where sw: "sweep cur req mb (freed + fileSize_or0 c) cs w1 = (r2, w2)"
        by (cases "sweep cur req mb (freed + fileSize_or0 c) cs w1")
      from Cons.IH[OF sw] obtain pre where pre: "cs = pre @ skipped r2" "subseq (evicted r2) pre" by blast
      from Cons.prems False ev True sw have r: "r = r2\<lparr>evicted := c # evicted r2\<rparr>" by simp
      have "c # cs = (c # pre) @ skipped r" using pre r by simp
      moreover have "subseq (evicted r) (c # pre)" using pre r by simp
      ultimately show ?thesis by blast
    next
      case F: False
      from Cons.prems False ev F have sw: "sweep cur req mb freed cs w1 = (r, w')" by simp
      from Cons.IH[OF sw] obtain pre where pre: "cs = pre @ skipped r" "subseq (evicted r) pre" by blast
      have "c # cs = (c # pre) @ skipped r" using pre by simp
      moreover have "subseq (evicted r) (c # pre)" using pre(2) by (rule list_emb_Cons)
      ultimately show ?thesis by blast
    qed
  qed
qed

lemma subseq_sorted_key:
  "subseq xs ys \<Longrightarrow> sorted (map f ys) \<Longrightarrow> sorted (map f xs)"
proof (induction rule: list_emb.induct)
  case (list_emb_Nil ys)
  then show ?case by simp
next
  case (list_emb_Cons xs ys y)
  then show ?case by simp
next
  case (list_emb_Cons2 x y xs ys)
  have "set xs \<subseteq> set ys" using list_emb_Cons2.hyps(2) by (auto dest: list_emb_set)
  with list_emb_Cons2 show ?case by auto
qed

lemma sweep_oldest_first:
  assumes "sweep cur req mb freed cs w = (r, w')" and "sorted (map cacheTime_or0 cs)"
  shows "sorted (map cacheTime_or0 (evicted r))"
    and "\<forall>e \<in> set (evicted r). \<forall>s \<in> set (skipped r). cacheTime_or0 e \<le> cacheTime_or0 s"
proof -
  from sweep_shape[OF assms(1)] obtain pre where
    pre: "cs = pre @ skipped r" "subseq (evicted r) pre" by blast
  have sp: "sorted (map cacheTime_or0 pre)" using assms(2) pre(1) by (simp add: sorted_append)
  show "sorted (map cacheTime_or0 (evicted r))" using subseq_sorted_key[OF pre(2) sp] .
  have sub: "set (evicted r) \<subseteq> set pre" using pre(2) by (auto dest: list_emb_set)
  have "\<forall>e \<in> set pre. \<forall>s \<in> set (skipped r). cacheTime_or0 e \<le> cacheTime_or0 s"
    using assms(2) pre(1) by (auto simp: sorted_append)
  with sub show "\<forall>e \<in> set (evicted r). \<forall>s \<in> set (skipped r). cacheTime_or0 e \<le> cacheTime_or0 s"
    by blast
qed


text \<open>
  C6. In every eviction sweep the rows actually evicted come in non-decreasing order of
  \<open>cacheTime\<close> (read as \<open>cacheTime || 0\<close>, the sort key of the code), and no evicted row
  is newer than a row the sweep left alone because the budget was already satisfied.
\<close>

theorem eviction_order_oldest_first:
  assumes "cleanOldCache config requiredSpace w = (Inr r, w')"
  shows "sorted (map cacheTime_or0 (evicted r)) \<and>
         (\<forall>e \<in> set (evicted r). \<forall>s \<in> set (skipped r). cacheTime_or0 e \<le> cacheTime_or0 s)"
proof -
  obtain cur w1 where g: "getCacheTotalSize w = (cur, w1)" by (cases "getCacheTotalSize w")
  show ?thesis
  proof (cases "int cur + int requiredSpace \<le> maxBytes_of config")
    case True
    with assms g have "r = \<lparr>freedSpace = 0, evicted = [], skipped = []\<rparr>"
      by (simp add: cleanOldCache_def)
    then show ?thesis by simp
  next
    case False
    obtain res w2 where d: "database_get cached w1 = (res, w2)" by (cases "database_get cached w1")
    show ?thesis
    proof (cases res)
      case (Inl e)
      with assms g False d show ?thesis by (simp add: cleanOldCache_def)
    next
      case (Inr caches)
      obtain r3 w3 where sw:
        "sweep cur requiredSpace (maxBytes_of config) 0 (sort_key cacheTime_or0 caches) w2 = (r3, w3)"
        by (cases "sweep cur requiredSpace (maxBytes_of config) 0 (sort_key cacheTime_or0 caches) w2")
      with assms g False d Inr have "r = r3" by (simp add: cleanOldCache_def)
      with sweep_oldest_first[OF sw] show ?thesis by simp
    qed
  qed
qed


theorem eviction_order_oldest_first_witness:
  "cleanOldCache ex_config 400000 ex_world =
     (Inr \<lparr>freedSpace = 400000, evicted = [blob ''2'' 300000 10, blob ''3'' 100000 20],
           skipped = [blob ''1'' 600000 30]\<rparr>,
      ex_world\<lparr>db := [blob ''1'' 600000 30, clear_row (blob ''2'' 300000 10),
                       clear_row (blob ''3'' 100000 20)],
               files := {''/c/1.mp3''}\<rparr>)
   \<and> sorted (map cacheTime_or0 [blob ''2'' 300000 10, blob ''3'' 100000 20])
   \<and> cacheTime_or0 (blob ''2'' 300000 10) \<le> cacheTime_or0 (blob ''1'' 600000 30)
   \<and> cacheTime_or0 (blob ''3'' 100000 20) \<le> cacheTime_or0 (blob ''1'' 600000 30)"
  using eviction_order_oldest_first [OF ex_sweep_run] ex_sweep_run by simp

lemma getCacheTotalSize_healthy:
  "faults w = [] \<Longrightarrow> getCacheTotalSize w = (cachedBytes (db w), w)"
  by (simp add: getCacheTotalSize_def database_get_healthy foldl_fileSize cachedBytes_def)

lemma evict_row_healthy:
  "faults w = [] \<Longrightarrow> evict_row c w =
     (if truthy_path (cachePath c)
      then (if the (cachePath c) \<in> files w \<and> the (cachePath c) \<notin> undeletable w
            then (True, w\<lparr>files := files w - {the (cachePath c)},
                          db := map (\<lambda>r. if mc_id r = mc_id c then clear_row r else r) (db w)\<rparr>)
            else (False, w))
      else (True, w\<lparr>db := map (\<lambda>r. if mc_id r = mc_id c then clear_row r else r) (db w)\<rparr>))"
  by (simp add: evict_row_def fs_unlink_def database_set_healthy clear_row_def)

lemma distinct_key_neq: "distinct (map f (a # xs)) \<Longrightarrow> x \<in> set xs \<Longrightarrow> f x \<noteq> f a"
  by (metis distinct.simps(2) image_eqI list.simps(9) set_map)

lemma cachedBytes_clear:
  "distinct (map mc_id rows) \<Longrightarrow> c \<in> set rows \<Longrightarrow> cached c \<Longrightarrow>
   cachedBytes (map (\<lambda>r. if mc_id r = mc_id c then clear_row r else r) rows) + fileSize_or0 c = cachedBytes rows"
proof (induction rows)
  case Nil
  then show ?case by simp
next
  case (Cons a rows)
  show ?case
  proof (cases "a = c")
    case True
    have "\<forall>r \<in> set rows. mc_id r \<noteq> mc_id c" using distinct_key_neq[OF Cons.prems(1)] True by metis
    then have "map (\<lambda>r. if mc_id r = mc_id c then clear_row r else r) rows = rows"
      by (simp add: map_idI)
    with True Cons.prems(3) show ?thesis by (simp add: cachedBytes_def clear_row_def)
  next
    case False
    with Cons.prems have c: "c \<in> set rows" by simp
    then have "mc_id a \<noteq> mc_id c" using distinct_key_neq[OF Cons.prems(1)] by metis
    moreover have "cachedBytes (map (\<lambda>r. if mc_id r = mc_id c then clear_row r else r) rows) + fileSize_or0 c = cachedBytes rows"
      using Cons.IH Cons.prems(1) c Cons.prems(3) by simp
    ultimately show ?thesis by (simp add: cachedBytes_def)
  qed
qed

lemma clear_keeps_other:
  "r \<in> set rows \<Longrightarrow> mc_id r \<noteq> i \<Longrightarrow>
   r \<in> set (map (\<lambda>r. if mc_id r = i then clear_row r else r) rows)"
  by (induction rows) auto

lemma clear_keeps_ids:
  "map mc_id (map (\<lambda>r. if mc_id r = i then clear_row r else r) rows) = map mc_id rows"
  by (induction rows) (auto simp: clear_row_def)

lemma evictable_healthy:
  "faults w = [] \<Longrightarrow> evictable w c =
     (truthy_path (cachePath c) \<longrightarrow>
        the (cachePath c) \<in> files w \<and> the (cachePath c) \<notin> undeletable w)"
  by (simp add: evictable_def evict_row_healthy)

lemma sweep_healthy:
  assumes "sweep cur S mb freed cs w = (r, w')"
    and "faults w = []"
    and "distinct (map mc_id (db w))"
    and "set cs \<subseteq> set (db w)"
    and "\<forall>c \<in> set cs. cached c"
    and "distinct (map mc_id cs)"
    and "\<forall>a \<in> set cs. \<forall>b \<in> set cs. truthy_path (cachePath a) \<longrightarrow> cachePath a = cachePath b \<longrightarrow> a = b"
  shows "faults w' = [] \<and> freed \<le> freedSpace r \<and>
         cachedBytes (db w') + (freedSpace r - freed) = cachedBytes (db w) \<and>
         (int cur - int (freedSpace r) + int S \<le> mb \<or>
          freedSpace r = freed + sum_list (map fileSize_or0 (filter (evictable w) cs)))"
  using assms
proof (induction cs arbitrary: freed w r w')
  case Nil
  then show ?case by auto
next
  case (Cons c cs)
  show ?case
  proof (cases "int cur - int freed + int S \<le> mb")
    case True
    with Cons.prems(1,2) show ?thesis by auto
  next
    case False
    note healthy = Cons.prems(2)
    show ?thesis
    proof (cases "evictable w c")
      case F: False
      then have ev: "evict_row c w = (False, w)"
        using healthy by (auto simp: evictable_def evict_row_healthy split: if_splits)
      with Cons.prems(1) False have sw: "sweep cur S mb freed cs w = (r, w')" by simp
      have "faults w' = [] \<and> freed \<le> freedSpace r \<and>
         cachedBytes (db w') + (freedSpace r - freed) = cachedBytes (db w) \<and>
         (int cur - int (freedSpace r) + int S \<le> mb \<or>
          freedSpace r = freed + sum_list (map fileSize_or0 (filter (evictable w) cs)))"
        using Cons.prems by (intro Cons.IH[OF sw]) auto
      with F show ?thesis by simp
    next
      case T: True
      define w1 where "w1 = snd (evict_row c w)"
      have ev: "evict_row c w = (True, w1)"
        using T by (simp add: evictable_def w1_def prod_eq_iff)
      have db1: "db w1 = map (\<lambda>r. if mc_id r = mc_id c then clear_row r else r) (db w)"
        and f1: "faults w1 = []"
        and und1: "undeletable w1 = undeletable w"
        and files1: "files w1 = (if truthy_path (cachePath c) then files w - {the (cachePath c)} else files w)"
        using ev healthy by (auto simp: evict_row_healthy split: if_splits)
      obtain r2 w2 where sw: "sweep cur S mb (freed + fileSize_or0 c) cs w1 = (r2, w2)"
        by (cases "sweep cur S mb (freed + fileSize_or0 c) cs w1")
      with Cons.prems(1) False ev have r: "r = r2\<lparr>evicted := c # evicted r2\<rparr>" and w': "w' = w2" by auto
      have cin: "c \<in> set (db w)" and cc: "cached c" using Cons.prems by auto
      have ids: "\<forall>x \<in> set cs. mc_id x \<noteq> mc_id c" using distinct_key_neq[OF Cons.prems(6)] by metis
      have sub1: "set cs \<subseteq> set (db w1)"
        using Cons.prems(4) ids unfolding db1 by (auto intro: clear_keeps_other)
      have d1: "distinct (map mc_id (db w1))" using Cons.prems(3) by (simp only: db1 clear_keeps_ids)
      have ih: "faults w2 = [] \<and> freed + fileSize_or0 c \<le> freedSpace r2 \<and>
         cachedBytes (db w2) + (freedSpace r2 - (freed + fileSize_or0 c)) = cachedBytes (db w1) \<and>
         (int cur - int (freedSpace r2) + int S \<le> mb \<or>
          freedSpace r2 = freed + fileSize_or0 c + sum_list (map fileSize_or0 (filter (evictable w1) cs)))"
        using Cons.prems f1 sub1 d1 by (intro Cons.IH[OF sw]) auto
      have tc: "cachedBytes (db w1) + fileSize_or0 c = cachedBytes (db w)"
        unfolding db1 using cachedBytes_clear[OF Cons.prems(3) cin cc] .
      have same: "\<forall>x \<in> set cs. evictable w1 x = evictable w x"
      proof
        fix x assume x: "x \<in> set cs"
        have ne: "x \<noteq> c" using ids x by auto
        have "truthy_path (cachePath x) \<Longrightarrow> truthy_path (cachePath c) \<Longrightarrow> the (cachePath x) \<noteq> the (cachePath c)"
        proof
          assume tx: "truthy_path (cachePath x)" and tcp: "truthy_path (cachePath c)"
            and eq: "the (cachePath x) = the (cachePath c)"
          then have "cachePath x = cachePath c"
            by (cases "cachePath x"; cases "cachePath c") (auto simp: truthy_path_def)
          then have "c = x" using Cons.prems(7) tcp x by (metis list.set_intros(1) list.set_intros(2))
          with ne show False by simp
        qed
        then show "evictable w1 x = evictable w x"
          using healthy f1 by (auto simp: evictable_healthy files1 und1)
      qed
      then have filt: "filter (evictable w1) cs = filter (evictable w) cs"
        by (intro filter_cong) auto
      from ih tc filt T r w' show ?thesis by auto
    qed
  qed
qed


lemma sum_sorted_filter:
  fixes f :: "'a \<Rightarrow> nat"
  shows "sum_list (map f (filter P (sort_key k xs))) = sum_list (map f (filter P xs))"
proof -
  have "mset (map f (filter P (sort_key k xs))) = mset (map f (filter P xs))" by simp
  then show ?thesis by (metis sum_mset_sum_list)
qed

lemma sweep_snapshot_pre:
  assumes ids: "distinct (map mc_id (db w))"
    and paths: "distinct (map cachePath (filter (\<lambda>c. cached c \<and> truthy_path (cachePath c)) (db w)))"
  defines "cs \<equiv> sort_key cacheTime_or0 (filter cached (db w))"
  shows "set cs \<subseteq> set (db w)" "\<forall>c \<in> set cs. cached c" "distinct (map mc_id cs)"
    "\<forall>a \<in> set cs. \<forall>b \<in> set cs. truthy_path (cachePath a) \<longrightarrow> cachePath a = cachePath b \<longrightarrow> a = b"
proof -
  show "set cs \<subseteq> set (db w)" "\<forall>c \<in> set cs. cached c" by (auto simp: cs_def)
  have "distinct (db w)" "inj_on mc_id (set (db w))" using ids by (auto simp: distinct_map)
  then show "distinct (map mc_id cs)"
    by (auto simp: cs_def distinct_map intro: inj_on_subset)
  have inj: "inj_on cachePath (set (filter (\<lambda>c. cached c \<and> truthy_path (cachePath c)) (db w)))"
    using paths by (simp only: distinct_map)
  show "\<forall>a \<in> set cs. \<forall>b \<in> set cs. truthy_path (cachePath a) \<longrightarrow> cachePath a = cachePath b \<longrightarrow> a = b"
  proof (intro ballI impI)
    fix a b assume a: "a \<in> set cs" and b: "b \<in> set cs"
      and t: "truthy_path (cachePath a)" and eq: "cachePath a = cachePath b"
    have "a \<in> set (filter (\<lambda>c. cached c \<and> truthy_path (cachePath c)) (db w))"
      using a t by (simp add: cs_def)
    moreover have "b \<in> set (filter (\<lambda>c. cached c \<and> truthy_path (cachePath c)) (db w))"
      using b t eq by (simp add: cs_def)
    ultimately show "a = b" using inj eq by (meson inj_onD)
  qed
qed


lemma sweep_fits_when_healthy:
  assumes healthy: "faults w = []"
    and ids: "distinct (map mc_id (db w))"
    and paths: "distinct (map cachePath (filter (\<lambda>c. cached c \<and> truthy_path (cachePath c)) (db w)))"
  shows "(int (fst (getCacheTotalSize w)) + int S \<le> maxBytes_of config \<longrightarrow>
            cleanOldCache config S w = (Inr \<lparr>freedSpace = 0, evicted = [], skipped = []\<rparr>, w))
       \<and> (\<exists>r w'. cleanOldCache config S w = (Inr r, w')
             \<and> subseq (evicted r) (sort_key cacheTime_or0 (filter cached (db w)))
             \<and> length (evicted r) \<le> length (filter cached (db w))
             \<and> (int (fst (getCacheTotalSize w)) - int (evictableVolume w) + int S \<le> maxBytes_of config
                  \<longrightarrow> int (fst (getCacheTotalSize w')) + int S \<le> maxBytes_of config))"
proof (cases "int (cachedBytes (db w)) + int S \<le> maxBytes_of config")
  case True
  then have "cleanOldCache config S w = (Inr \<lparr>freedSpace = 0, evicted = [], skipped = []\<rparr>, w)"
    using healthy by (simp add: cleanOldCache_def getCacheTotalSize_healthy)
  with True healthy show ?thesis by (simp add: getCacheTotalSize_healthy)
next
  case False
  define cs where "cs = sort_key cacheTime_or0 (filter cached (db w))"
  obtain r w' where sw: "sweep (cachedBytes (db w)) S (maxBytes_of config) 0 cs w = (r, w')"
    by (cases "sweep (cachedBytes (db w)) S (maxBytes_of config) 0 cs w")
  have run: "cleanOldCache config S w = (Inr r, w')"
    using False healthy sw
    by (simp add: cleanOldCache_def getCacheTotalSize_healthy database_get_healthy cs_def)
  note pre = sweep_snapshot_pre[OF ids paths, folded cs_def]
  from sweep_healthy[OF sw healthy ids pre]
  have h': "faults w' = []" and tot: "cachedBytes (db w') + freedSpace r = cachedBytes (db w)"
    and fin: "int (cachedBytes (db w)) - int (freedSpace r) + int S \<le> maxBytes_of config \<or>
              freedSpace r = sum_list (map fileSize_or0 (filter (evictable w) cs))"
    by auto
  have ev: "sum_list (map fileSize_or0 (filter (evictable w) cs)) = evictableVolume w"
    by (simp add: cs_def evictableVolume_def sum_sorted_filter)
  from sweep_shape[OF sw] obtain pre' where shape: "cs = pre' @ skipped r" "subseq (evicted r) pre'"
    by blast
  have sub: "subseq (evicted r) cs" using shape by (simp add: subseq_rev_drop_many)
  then have len: "length (evicted r) \<le> length (filter cached (db w))"
    using list_emb_length[OF sub] by (simp add: cs_def)
  have fit: "int (cachedBytes (db w)) - int (evictableVolume w) + int S \<le> maxBytes_of config
                  \<Longrightarrow> int (cachedBytes (db w')) + int S \<le> maxBytes_of config"
    using fin ev tot by linarith
  show ?thesis
    using False run sub len fit healthy h'
    by (simp add: getCacheTotalSize_healthy cs_def)
qed


lemma database_get_rows:
  "database_get q w = (Inr rows, w') \<Longrightarrow> rows = filter q (db w) \<and> db w' = db w \<and> files w' = files w"
  by (auto simp: database_get_def split: prod.splits bool.splits dest: db_call_frame)

lemma getCacheTotalSize_frame:
  "db (snd (getCacheTotalSize w)) = db w \<and> files (snd (getCacheTotalSize w)) = files w"
proof -
  obtain r w1 where g: "database_get cached w = (r, w1)" by (cases "database_get cached w")
  have "db w1 = db w \<and> files w1 = files w"
    using g by (auto simp: database_get_def split: prod.splits bool.splits dest: db_call_frame)
  then show ?thesis using g by (cases r) (simp_all add: getCacheTotalSize_def)
qed

lemma cleanOldCache_noop:
  "int (fst (getCacheTotalSize w)) + int S \<le> maxBytes_of config \<Longrightarrow>
     cleanOldCache config S w =
       (Inr \<lparr>freedSpace = 0, evicted = [], skipped = []\<rparr>, snd (getCacheTotalSize w))"
  by (cases "getCacheTotalSize w") (simp add: cleanOldCache_def)

lemma cleanOldCache_evicted_subseq:
  assumes "cleanOldCache config S w = (Inr r, w')"
  shows "subseq (evicted r) (sort_key cacheTime_or0 (filter cached (db w)))"
proof -
  obtain cur w1 where g: "getCacheTotalSize w = (cur, w1)" by (cases "getCacheTotalSize w")
  have db1: "db w1 = db w" using getCacheTotalSize_frame[of w] g by simp
  show ?thesis
  proof (cases "int cur + int S \<le> maxBytes_of config")
    case True
    with assms g have "r = \<lparr>freedSpace = 0, evicted = [], skipped = []\<rparr>"
      by (simp add: cleanOldCache_def)
    then show ?thesis by simp
  next
    case False
    obtain res w2 where d: "database_get cached w1 = (res, w2)" by (cases "database_get cached w1")
    show ?thesis
    proof (cases res)
      case (Inl e)
      with assms g False d show ?thesis by (simp add: cleanOldCache_def)
    next
      case (Inr caches)
      with d have rows: "caches = filter cached (db w)" using database_get_rows db1 by metis
      obtain r3 w3 where sw:
        "sweep cur S (maxBytes_of config) 0 (sort_key cacheTime_or0 caches) w2 = (r3, w3)"
        by (cases "sweep cur S (maxBytes_of config) 0 (sort_key cacheTime_or0 caches) w2")
      with assms g False d Inr have "r = r3" by (simp add: cleanOldCache_def)
      from sweep_shape[OF sw] obtain pre where
        "sort_key cacheTime_or0 caches = pre @ skipped r3" "subseq (evicted r3) pre" by blast
      then have "subseq (evicted r3) (sort_key cacheTime_or0 caches)"
        by (simp add: subseq_rev_drop_many)
      with \<open>r = r3\<close> rows show ?thesis by simp
    qed
  qed
qed


text \<open>
  C2. For every call of \<open>cleanOldCache\<close> (the spec's \<open>evictUntilFits\<close>) with incoming size
  \<open>S\<close>: if the total of \<open>getCacheTotalSize\<close> plus \<open>S\<close> is within the budget, the call
  evicts nothing and leaves table and blobs as they were; whenever the sweep returns, the
  rows it evicted are a subsequence of the cached rows in sweep order (each row at most
  once); and on a healthy database whose rows have distinct ids and own distinct blobs the
  sweep returns, and if the cached total minus the evictable volume plus \<open>S\<close> is within
  the budget, so is the cached total after the sweep plus \<open>S\<close>.
\<close>

theorem evictUntilFits_budget:
  "(int (fst (getCacheTotalSize w)) + int S \<le> maxBytes_of config \<longrightarrow>
      cleanOldCache config S w =
        (Inr \<lparr>freedSpace = 0, evicted = [], skipped = []\<rparr>, snd (getCacheTotalSize w))
      \<and> db (snd (getCacheTotalSize w)) = db w \<and> files (snd (getCacheTotalSize w)) = files w)
   \<and> (\<forall>r w'. cleanOldCache config S w = (Inr r, w') \<longrightarrow>
         subseq (evicted r) (sort_key cacheTime_or0 (filter cached (db w)))
         \<and> length (evicted r) \<le> length (filter cached (db w)))
   \<and> (faults w = [] \<and> distinct (map mc_id (db w)) \<and>
       distinct (map cachePath (filter (\<lambda>c. cached c \<and> truthy_path (cachePath c)) (db w))) \<longrightarrow>
         (\<exists>r w'. cleanOldCache config S w = (Inr r, w') \<and>
            (int (fst (getCacheTotalSize w)) - int (evictableVolume w) + int S \<le> maxBytes_of config
               \<longrightarrow> int (fst (getCacheTotalSize w')) + int S \<le> maxBytes_of config)))"
proof (intro conjI impI allI)
  assume "int (fst (getCacheTotalSize w)) + int S \<le> maxBytes_of config"
  then show "cleanOldCache config S w =
        (Inr \<lparr>freedSpace = 0, evicted = [], skipped = []\<rparr>, snd (getCacheTotalSize w))"
    by (rule cleanOldCache_noop)
next
  show "db (snd (getCacheTotalSize w)) = db w" "files (snd (getCacheTotalSize w)) = files w"
    using getCacheTotalSize_frame[of w] by simp_all
next
  fix r w' assume run: "cleanOldCache config S w = (Inr r, w')"
  from cleanOldCache_evicted_subseq[OF run]
  show sub: "subseq (evicted r) (sort_key cacheTime_or0 (filter cached (db w)))" .
  from list_emb_length[OF sub]
  show "length (evicted r) \<le> length (filter cached (db w))" by simp
next
  assume "faults w = [] \<and> distinct (map mc_id (db w)) \<and>
       distinct (map cachePath (filter (\<lambda>c. cached c \<and> truthy_path (cachePath c)) (db w)))"
  then have h: "faults w = []" "distinct (map mc_id (db w))"
    "distinct (map cachePath (filter (\<lambda>c. cached c \<and> truthy_path (cachePath c)) (db w)))"
    by simp_all
  from sweep_fits_when_healthy[OF h, of S config]
  show "\<exists>r w'. cleanOldCache config S w = (Inr r, w') \<and>
            (int (fst (getCacheTotalSize w)) - int (evictableVolume w) + int S \<le> maxBytes_of config
               \<longrightarrow> int (fst (getCacheTotalSize w')) + int S \<le> maxBytes_of config)"
    by blast
qed

theorem evictUntilFits_budget_witness:
  "cleanOldCache ex_config 0 ex_world =
     (Inr \<lparr>freedSpace = 0, evicted = [], skipped = []\<rparr>, ex_world)
   \<and> length [blob ''2'' 300000 10, blob ''3'' 100000 20] \<le> length (filter cached (db ex_world))
   \<and> faults ex_world = [] \<and> distinct (map mc_id (db ex_world))
   \<and> distinct (map cachePath (filter (\<lambda>c. cached c \<and> truthy_path (cachePath c)) (db ex_world)))
   \<and> int (fst (getCacheTotalSize ex_world)) - int (evictableVolume ex_world) + int 400000
        \<le> maxBytes_of ex_config
   \<and> int (fst (getCacheTotalSize (snd (cleanOldCache ex_config 400000 ex_world)))) + int 400000
        \<le> maxBytes_of ex_config"
proof -
  note small = evictUntilFits_budget [of ex_world 0 ex_config]
  note large = evictUntilFits_budget [of ex_world 400000 ex_config]
  have t: "getCacheTotalSize ex_world = (1000000, ex_world)"
    by (simp add: eval_defs ex_world_def blob_def)
  have m: "maxBytes_of ex_config = 1048576" by (simp add: maxBytes_of_def ex_config_def)
  from small have a: "cleanOldCache ex_config 0 ex_world =
     (Inr \<lparr>freedSpace = 0, evicted = [], skipped = []\<rparr>, ex_world)" by (simp add: t m)
  from large ex_sweep_run
  have b: "length [blob ''2'' 300000 10, blob ''3'' 100000 20] \<le> length (filter cached (db ex_world))"
    by simp
  have h: "faults ex_world = []" "distinct (map mc_id (db ex_world))"
    "distinct (map cachePath (filter (\<lambda>c. cached c \<and> truthy_path (cachePath c)) (db ex_world)))"
    by (simp_all add: ex_world_def blob_def truthy_path_def)
  have v: "int (fst (getCacheTotalSize ex_world)) - int (evictableVolume ex_world) + int 400000
        \<le> maxBytes_of ex_config"
    by (simp add: t m)
      (simp add: eval_defs evictable_def evictableVolume_def ex_world_def blob_def)
  from large h v
  have c: "int (fst (getCacheTotalSize (snd (cleanOldCache ex_config 400000 ex_world)))) + int 400000
        \<le> maxBytes_of ex_config" by auto
  show ?thesis by (intro conjI) (rule a b h v c)+
qed

text \<open>
  C10 (as amended). When the query of \<open>getCacheTotalSize\<close> throws, it returns 0. Then
  \<open>cleanOldCache\<close> evicts nothing and raises nothing provided the incoming size alone is
  within the budget, and the request goes on to its download. When the incoming size
  exceeds the budget \<open>cleanOldCache\<close> goes on to its second query: if that one throws
  as well, \<open>cleanOldCache\<close> raises and the request ends with \<open>download-error\<close>, its
  lock released; otherwise \<open>cleanOldCache\<close> runs the sweep over the cached rows with
  \<open>currentSize = 0\<close>.
\<close>

theorem cache_query_failure_skips_eviction:
  assumes "faults w = True # fs"
  shows "getCacheTotalSize w = (0, w\<lparr>faults := fs\<rparr>)
       \<and> (int S \<le> maxBytes_of config \<longrightarrow>
            cleanOldCache config S w =
              (Inr \<lparr>freedSpace = 0, evicted = [], skipped = []\<rparr>, w\<lparr>faults := fs\<rparr>))
       \<and> (int (su_size (p_urlInfo p)) \<le> maxBytes_of config \<longrightarrow>
            begin_download config p w =
              (Downloading p, w\<lparr>downloadLocks := insert (p_sanitizedId p) (downloadLocks w),
                                 faults := fs\<rparr>))
       \<and> (maxBytes_of config < int S \<longrightarrow>
            (\<forall>fs'. fs = True # fs' \<longrightarrow>
               cleanOldCache config S w = (Inl DbError, w\<lparr>faults := fs'\<rparr>))
            \<and> (fs = [] \<or> (\<exists>fs'. fs = False # fs') \<longrightarrow>
               cleanOldCache config S w =
                 (case sweep 0 S (maxBytes_of config) 0
                         (sort_key cacheTime_or0 (filter cached (db w))) (w\<lparr>faults := tl fs\<rparr>) of
                    (r, w3) \<Rightarrow> (Inr r, w3))))
       \<and> (maxBytes_of config < int (su_size (p_urlInfo p)) \<longrightarrow>
            (\<forall>fs'. fs = True # fs' \<longrightarrow>
               begin_download config p w =
                 (Finished,
                  release (p_sanitizedId p)
                    (say (Text ''download-error'')
                       (w\<lparr>downloadLocks := insert (p_sanitizedId p) (downloadLocks w),
                          faults := fs'\<rparr>)))))"
proof -
  have g: "getCacheTotalSize w' = (0, w'\<lparr>faults := fs\<rparr>)" if "faults w' = True # fs" for w'
    using that by (simp add: getCacheTotalSize_def database_get_def db_call_def)
  have noop: "cleanOldCache config S' w' =
      (Inr \<lparr>freedSpace = 0, evicted = [], skipped = []\<rparr>, w'\<lparr>faults := fs\<rparr>)"
    if "faults w' = True # fs" "int S' \<le> maxBytes_of config" for w' S'
    using that by (simp add: cleanOldCache_def g)
  have raise: "cleanOldCache config S' w' = (Inl DbError, w'\<lparr>faults := fs'\<rparr>)"
    if "faults w' = True # fs" "maxBytes_of config < int S'" "fs = True # fs'" for w' S' fs'
    using that by (simp add: cleanOldCache_def g database_get_def db_call_def)
  have sweeps: "cleanOldCache config S w =
                 (case sweep 0 S (maxBytes_of config) 0
                         (sort_key cacheTime_or0 (filter cached (db w))) (w\<lparr>faults := tl fs\<rparr>) of
                    (r, w3) \<Rightarrow> (Inr r, w3))"
    if "maxBytes_of config < int S" "fs = [] \<or> (\<exists>fs'. fs = False # fs')"
    using that assms by (auto simp: cleanOldCache_def g database_get_def db_call_def)
  define wl where "wl = w\<lparr>downloadLocks := insert (p_sanitizedId p) (downloadLocks w)\<rparr>"
  have fl: "faults wl = True # fs" using assms by (simp add: wl_def)
  have b1: "begin_download config p w =
              (Downloading p, w\<lparr>downloadLocks := insert (p_sanitizedId p) (downloadLocks w),
                                 faults := fs\<rparr>)"
    if "int (su_size (p_urlInfo p)) \<le> maxBytes_of config"
    using noop[OF fl that] by (simp add: begin_download_def wl_def[symmetric]; simp add: wl_def)
  have b2: "begin_download config p w =
                 (Finished,
                  release (p_sanitizedId p)
                    (say (Text ''download-error'')
                       (w\<lparr>downloadLocks := insert (p_sanitizedId p) (downloadLocks w),
                          faults := fs'\<rparr>)))"
    if "maxBytes_of config < int (su_size (p_urlInfo p))" "fs = True # fs'" for fs'
    using raise[OF fl that] by (simp add: begin_download_def wl_def[symmetric]; simp add: wl_def)
  from g[OF assms] noop[OF assms] raise[OF assms] sweeps b1 b2 show ?thesis by blast
qed

theorem cache_query_failure_skips_eviction_witness:
  "faults (ex_world\<lparr>faults := [True]\<rparr>) = True # []
   \<and> getCacheTotalSize (ex_world\<lparr>faults := [True]\<rparr>) = (0, ex_world)
   \<and> int 400000 \<le> maxBytes_of ex_config
   \<and> cleanOldCache ex_config 400000 (ex_world\<lparr>faults := [True]\<rparr>) =
       (Inr \<lparr>freedSpace = 0, evicted = [], skipped = []\<rparr>, ex_world)
   \<and> begin_download ex_config (ex_pending 400000) (ex_world\<lparr>faults := [True]\<rparr>) =
       (Downloading (ex_pending 400000), ex_world\<lparr>downloadLocks := {''7''}\<rparr>)
   \<and> maxBytes_of ex_config < int 2000000
   \<and> cleanOldCache ex_config 2000000 (ex_world\<lparr>faults := [True, True]\<rparr>) = (Inl DbError, ex_world)
   \<and> begin_download ex_config (ex_pending 2000000) (ex_world\<lparr>faults := [True, True]\<rparr>) =
       (Finished, ex_world\<lparr>outbox := [Text ''download-error'']\<rparr>)
   \<and> cleanOldCache ex_config 2000000 (ex_world\<lparr>faults := [True]\<rparr>) =
       (case sweep 0 2000000 (maxBytes_of ex_config) 0
               (sort_key cacheTime_or0 (filter cached (db ex_world))) ex_world of
          (r, w3) \<Rightarrow> (Inr r, w3))
   \<and> sweep 0 2000000 (maxBytes_of ex_config) 0
         (sort_key cacheTime_or0 (filter cached (db ex_world))) ex_world =
       (\<lparr>freedSpace = 1000000,
         evicted = [blob ''2'' 300000 10, blob ''3'' 100000 20, blob ''1'' 600000 30],
         skipped = []\<rparr>,
        ex_world\<lparr>db := [clear_row (blob ''1'' 600000 30), clear_row (blob ''2'' 300000 10),
                         clear_row (blob ''3'' 100000 20)],
                 files := {}\<rparr>)"
proof -
  have f1: "faults (ex_world\<lparr>faults := [True]\<rparr>) = True # []" by simp
  have f2: "faults (ex_world\<lparr>faults := [True, True]\<rparr>) = True # [True]" by simp
  have m: "maxBytes_of ex_config = 1048576" by (simp add: maxBytes_of_def ex_config_def)
  have w1: "ex_world\<lparr>faults := [True], faults := []\<rparr> = ex_world" by (simp add: ex_world_def)
  have w2: "ex_world\<lparr>faults := [True, True], faults := []\<rparr> = ex_world" by (simp add: ex_world_def)
  have w3: "ex_world\<lparr>faults := [True], faults := tl []\<rparr> = ex_world" by (simp add: ex_world_def)
  have d: "db (ex_world\<lparr>faults := [True]\<rparr>) = db ex_world" by simp
  have s4: "su_size (p_urlInfo (ex_pending sz)) = sz" "p_sanitizedId (ex_pending sz) = ''7''" for sz
    by (simp_all add: ex_pending_def ex_url_def)
  note small = cache_query_failure_skips_eviction
      [OF f1, of 400000 ex_config "ex_pending 400000"]
  note twice = cache_query_failure_skips_eviction
      [OF f2, of 2000000 ex_config "ex_pending 2000000"]
  note once = cache_query_failure_skips_eviction
      [OF f1, of 2000000 ex_config "ex_pending 2000000"]
  have a: "getCacheTotalSize (ex_world\<lparr>faults := [True]\<rparr>) = (0, ex_world)"
    using small[THEN conjunct1] by (simp only: w1)
  have le: "int 400000 \<le> maxBytes_of ex_config" by (simp add: m)
  have gt: "maxBytes_of ex_config < int 2000000" by (simp add: m)
  have b: "cleanOldCache ex_config 400000 (ex_world\<lparr>faults := [True]\<rparr>) =
       (Inr \<lparr>freedSpace = 0, evicted = [], skipped = []\<rparr>, ex_world)"
    using small[THEN conjunct2, THEN conjunct1, THEN mp, OF le] by (simp only: w1)
  have c: "begin_download ex_config (ex_pending 400000) (ex_world\<lparr>faults := [True]\<rparr>) =
       (Downloading (ex_pending 400000), ex_world\<lparr>downloadLocks := {''7''}\<rparr>)"
    using small[THEN conjunct2, THEN conjunct2, THEN conjunct1] le
    by (simp add: s4; simp add: ex_world_def)
  have e: "cleanOldCache ex_config 2000000 (ex_world\<lparr>faults := [True, True]\<rparr>) = (Inl DbError, ex_world)"
    using twice[THEN conjunct2, THEN conjunct2, THEN conjunct2, THEN conjunct1, THEN mp, OF gt,
        THEN conjunct1, THEN spec, of "[]"]
    by (simp only: w2; simp)
  have f: "begin_download ex_config (ex_pending 2000000) (ex_world\<lparr>faults := [True, True]\<rparr>) =
       (Finished, ex_world\<lparr>outbox := [Text ''download-error'']\<rparr>)"
    using twice[THEN conjunct2, THEN conjunct2, THEN conjunct2, THEN conjunct2] gt
    by (simp add: s4; simp add: ex_world_def release_def say_def)
  have g: "cleanOldCache ex_config 2000000 (ex_world\<lparr>faults := [True]\<rparr>) =
       (case sweep 0 2000000 (maxBytes_of ex_config) 0
               (sort_key cacheTime_or0 (filter cached (db ex_world))) ex_world of
          (r, w3) \<Rightarrow> (Inr r, w3))"
    using once[THEN conjunct2, THEN conjunct2, THEN conjunct2, THEN conjunct1, THEN mp, OF gt,
        THEN conjunct2]
    by (simp only: w3 d; simp)
  have sw: "sweep 0 2000000 (maxBytes_of ex_config) 0
         (sort_key cacheTime_or0 (filter cached (db ex_world))) ex_world =
       (\<lparr>freedSpace = 1000000,
         evicted = [blob ''2'' 300000 10, blob ''3'' 100000 20, blob ''1'' 600000 30],
         skipped = []\<rparr>,
        ex_world\<lparr>db := [clear_row (blob ''1'' 600000 30), clear_row (blob ''2'' 300000 10),
                         clear_row (blob ''3'' 100000 20)],
                 files := {}\<rparr>)"
    by (simp add: eval_defs ex_world_def ex_config_def blob_def)
  from f1 a le b c gt e f g sw show ?thesis by (intro conjI)
qed


text \<open>
  C10 as stated fails: with a 1 MB budget and an incoming size of 2000000 bytes, a failed
  first query is followed by a sweep that evicts every cached row.
\<close>

theorem cache_query_failure_counterexample:
  "getCacheTotalSize (ex_world\<lparr>faults := [True]\<rparr>) = (0, ex_world)
   \<and> cleanOldCache ex_config 2000000 (ex_world\<lparr>faults := [True]\<rparr>) =
       (Inr \<lparr>freedSpace = 1000000,
             evicted = [blob ''2'' 300000 10, blob ''3'' 100000 20, blob ''1'' 600000 30],
             skipped = []\<rparr>,
        ex_world\<lparr>db := [clear_row (blob ''1'' 600000 30), clear_row (blob ''2'' 300000 10),
                         clear_row (blob ''3'' 100000 20)],
                 files := {}\<rparr>)"
  by (simp add: eval_defs ex_world_def ex_config_def blob_def)



section \<open>Properties of \<open>path.resolve\<close>\<close>
















section \<open>Properties of the fetch coordinator\<close>

lemmas fetch_defs =
  handleSongRequest_def lookup_def resolve_def admit_def begin_download_def finish_download_def
  cacheData_def fields_of_def release_def say_def sendCachedSong_def transcode_def
  compressAudio_def sanitizeId_def is_id_char_def is_alnum_def Let_def

lemmas ex_defs = ex_world_def ex_config_def blob_def track_def ex_resolve_def ex_dirname_def
  ex_basename_def ex_url_def ex_env_def
  requester_def empty_world_def


lemma database_get_frame:
  "database_get q w = (r, w') \<Longrightarrow> writes w' = writes w \<and> files w' = files w"
  by (auto simp: database_get_def split: prod.splits bool.splits dest: db_call_frame)

lemma database_set_frame:
  "database_set i u w = (r, w') \<Longrightarrow> writes w' = writes w \<and> files w' = files w"
  by (auto simp: database_set_def split: prod.splits bool.splits if_splits dest: db_call_frame)


lemma say_frame [simp]: "writes (say m w) = writes w" "files (say m w) = files w"
  by (simp_all add: say_def)

lemma release_frame [simp]: "writes (release i w) = writes w" "files (release i w) = files w"
  by (simp_all add: release_def)

lemma transcode_frame:
  "transcode e p w = (c, w') \<Longrightarrow> writes w' = writes w \<and> downloadLocks w' = downloadLocks w"
  by (auto simp: transcode_def compressAudio_def say_def Let_def split: if_splits)

lemma sendCachedSong_frame [simp]:
  "writes (sendCachedSong e config session c fmt compress w) = writes w"
proof (cases "truthy_path (cachePath c)")
  case False
  then show ?thesis by (simp add: sendCachedSong_def)
next
  case True
  obtain cp w1 where t:
    "(if compress \<and> ffmpeg e then transcode e (the (cachePath c)) w else (None, w)) = (cp, w1)"
    by (cases "if compress \<and> ffmpeg e then transcode e (the (cachePath c)) w else (None, w)")
  then have f: "writes w1 = writes w" by (auto split: if_splits dest: transcode_frame)
  have u: "writes (snd (fs_unlink x v)) = writes v" for x v
    by (simp add: fs_unlink_def)
  show ?thesis
    using True f by (cases cp) (simp_all add: sendCachedSong_def t Let_def u)
qed

lemma fs_unlink_writes: "fs_unlink p w = (r, w') \<Longrightarrow> writes w' = writes w"
  by (auto simp: fs_unlink_def split: if_splits)

lemma evict_row_writes:
  assumes "evict_row c w = (ok, w')"
  shows "writes w' = writes w"
proof -
  obtain r1 w1 where u: "(if truthy_path (cachePath c) then fs_unlink (the (cachePath c)) w else (Inr (), w)) = (r1, w1)"
    by (cases "if truthy_path (cachePath c) then fs_unlink (the (cachePath c)) w else (Inr (), w)")
  then have f1: "writes w1 = writes w" by (auto split: if_splits dest: fs_unlink_writes)
  show ?thesis
  proof (cases r1)
    case (Inl err)
    with assms u f1 show ?thesis by (simp add: evict_row_def)
  next
    case (Inr x)
    obtain r2 w2 where st:
      "database_set (mc_id c) [F_cached False, F_cachePath None, F_fileSize (Some 0)] w1 = (r2, w2)"
      by (cases "database_set (mc_id c) [F_cached False, F_cachePath None, F_fileSize (Some 0)] w1")
    from database_set_frame[OF st] have f2: "writes w2 = writes w1" by simp
    from assms u Inr st have "w' = w2" by (cases r2) (simp_all add: evict_row_def)
    with f1 f2 show ?thesis by simp
  qed
qed

lemma sweep_writes: "sweep cur S mb freed cs w = (r, w') \<Longrightarrow> writes w' = writes w"
proof (induction cs arbitrary: freed w r w')
  case Nil
  then show ?case by simp
next
  case (Cons c cs)
  obtain ok w1 where ev: "evict_row c w = (ok, w1)" by (cases "evict_row c w")
  from evict_row_writes[OF ev] have w1: "writes w1 = writes w" .
  show ?case
  proof (cases "int cur - int freed + int S \<le> mb")
    case True
    with Cons.prems show ?thesis by simp
  next
    case False
    show ?thesis
    proof (cases ok)
      case True
      obtain r2 w2 where sw: "sweep cur S mb (freed + fileSize_or0 c) cs w1 = (r2, w2)"
        by (cases "sweep cur S mb (freed + fileSize_or0 c) cs w1")
      with Cons.prems False ev True have "w' = w2" by simp
      with Cons.IH[OF sw] w1 show ?thesis by simp
    next
      case F: False
      with Cons.prems False ev have "sweep cur S mb freed cs w1 = (r, w')" by simp
      from Cons.IH[OF this] w1 show ?thesis by simp
    qed
  qed
qed

lemma getCacheTotalSize_writes: "getCacheTotalSize w = (n, w') \<Longrightarrow> writes w' = writes w"
  by (auto simp: getCacheTotalSize_def split: prod.splits sum.splits dest: database_get_frame)

lemma cleanOldCache_writes:
  assumes "cleanOldCache config S w = (r, w')"
  shows "writes w' = writes w"
proof -
  obtain n w1 where g: "getCacheTotalSize w = (n, w1)" by (cases "getCacheTotalSize w")
  note f1 = getCacheTotalSize_writes[OF g]
  show ?thesis
  proof (cases "int n + int S \<le> maxBytes_of config")
    case True
    with assms g f1 show ?thesis by (simp add: cleanOldCache_def)
  next
    case False
    obtain res w2 where d: "database_get cached w1 = (res, w2)" by (cases "database_get cached w1")
    note f2 = database_get_frame[OF d]
    show ?thesis
    proof (cases res)
      case (Inl err)
      with assms g False d f1 f2 show ?thesis by (simp add: cleanOldCache_def)
    next
      case (Inr caches)
      obtain r3 w3 where sw:
        "sweep n S (maxBytes_of config) 0 (sort_key cacheTime_or0 caches) w2 = (r3, w3)"
        by (cases "sweep n S (maxBytes_of config) 0 (sort_key cacheTime_or0 caches) w2")
      with assms g False d Inr have "w' = w3" by (simp add: cleanOldCache_def)
      with sweep_writes[OF sw] f1 f2 show ?thesis by simp
    qed
  qed
qed

lemma admit_cases:
  assumes "admit e config session song fmt compress ce u w = (s, w')"
  shows "writes w' = writes w \<and>
     (s = Finished \<or> (\<exists>p. s = Announcing p \<and> sanitizeId (song_id song) \<noteq> [] \<and>
        p_savePath p = path_resolve e [cachePath_cfg config, sanitizeId (song_id song) @ ''.mp3''] \<and>
        prefix (path_resolve e [cachePath_cfg config]) (p_savePath p)))"
  using assms by (auto simp: admit_def Let_def split: if_splits)

lemma resolve_cases:
  assumes "resolve e config session song fmt compress ce w = (s, w')"
  shows "writes w' = writes w \<and>
     (s = Finished \<or> (\<exists>p. s = Announcing p \<and> sanitizeId (song_id song) \<noteq> [] \<and>
        p_savePath p = path_resolve e [cachePath_cfg config, sanitizeId (song_id song) @ ''.mp3''] \<and>
        prefix (path_resolve e [cachePath_cfg config]) (p_savePath p)))"
proof (cases "getSongUrl e (song_id song) (bitrate_cfg config)")
  case (Inl err)
  with assms show ?thesis by (auto simp: resolve_def)
next
  case (Inr ou)
  show ?thesis
  proof (cases ou)
    case None
    with assms Inr show ?thesis by (auto simp: resolve_def)
  next
    case (Some u)
    show ?thesis
    proof (cases "su_url u = []")
      case True
      with assms Inr Some show ?thesis by (auto simp: resolve_def)
    next
      case False
      with assms Inr Some have "admit e config session song fmt compress ce u w = (s, w')"
        by (simp add: resolve_def)
      from admit_cases[OF this] show ?thesis .
    qed
  qed
qed

lemma lookup_cases:
  assumes "lookup e config session song fmt compress w = (s, w')"
  shows "writes w' = writes w \<and>
     (s = Finished \<or> (\<exists>p. s = Announcing p \<and> sanitizeId (song_id song) \<noteq> [] \<and>
        p_savePath p = path_resolve e [cachePath_cfg config, sanitizeId (song_id song) @ ''.mp3''] \<and>
        prefix (path_resolve e [cachePath_cfg config]) (p_savePath p)))"
proof -
  obtain r w1 where g: "database_get (\<lambda>r. mc_id r = song_id song) w = (r, w1)"
    by (cases "database_get (\<lambda>r. mc_id r = song_id song) w")
  note f1 = database_get_frame[OF g]
  show ?thesis
  proof (cases r)
    case (Inl err)
    have "lookup e config session song fmt compress w = (Finished, say (Text ''download-error'') w1)"
      by (simp add: lookup_def g Inl)
    with assms have "s = Finished" "w' = say (Text ''download-error'') w1" by simp_all
    with f1 show ?thesis by simp
  next
    case (Inr cache)
    show ?thesis
    proof (cases cache)
      case Nil
      have "lookup e config session song fmt compress w =
            resolve e config session song fmt compress None w1"
        by (simp add: lookup_def g Inr Nil)
      with assms have "resolve e config session song fmt compress None w1 = (s, w')" by simp
      from resolve_cases[OF this] f1 show ?thesis by simp
    next
      case (Cons c cs)
      show ?thesis
      proof (cases "cached c \<and> truthy_path (cachePath c)")
        case False
        have "lookup e config session song fmt compress w =
              resolve e config session song fmt compress (Some c) w1"
          using False
          by (cases "cached c"; cases "truthy_path (cachePath c)") (simp_all add: lookup_def g Inr Cons)
        with assms have "resolve e config session song fmt compress (Some c) w1 = (s, w')" by simp
        from resolve_cases[OF this] f1 show ?thesis by simp
      next
        case True
        show ?thesis
        proof (cases "fs_access (the (cachePath c)) w1")
          case acc: (Inr u)
          have "lookup e config session song fmt compress w =
                (Finished, sendCachedSong e config session c fmt compress w1)"
            using True by (simp add: lookup_def g Inr Cons acc)
          with assms have "s = Finished" "w' = sendCachedSong e config session c fmt compress w1"
            by simp_all
          with f1 show ?thesis by simp
        next
          case acc: (Inl err)
          obtain r2 w2 where st:
            "database_set (song_id song) [F_cached False, F_cachePath None] w1 = (r2, w2)"
            by (cases "database_set (song_id song) [F_cached False, F_cachePath None] w1")
          note f2 = database_set_frame[OF st]
          show ?thesis
          proof (cases r2)
            case L: (Inl err2)
            have "lookup e config session song fmt compress w =
                  (Finished, say (Text ''download-error'') w2)"
              using True by (simp add: lookup_def g Inr Cons acc st L)
            with assms have "s = Finished" "w' = say (Text ''download-error'') w2" by simp_all
            with f1 f2 show ?thesis by simp
          next
            case R: (Inr u)
            have "lookup e config session song fmt compress w =
                  resolve e config session song fmt compress None w2"
              using True by (simp add: lookup_def g Inr Cons acc st R)
            with assms have "resolve e config session song fmt compress None w2 = (s, w')" by simp
            from resolve_cases[OF this] f1 f2 show ?thesis by simp
          qed
        qed
      qed
    qed
  qed
qed

lemma begin_download_cases:
  assumes "begin_download config p w = (s, w')"
  shows "writes w' = writes w \<and> (s = Finished \<or> s = Downloading p)"
proof -
  obtain r w1 where c: "cleanOldCache config (su_size (p_urlInfo p))
             (w\<lparr>downloadLocks := insert (p_sanitizedId p) (downloadLocks w)\<rparr>) = (r, w1)"
    by (cases "cleanOldCache config (su_size (p_urlInfo p))
             (w\<lparr>downloadLocks := insert (p_sanitizedId p) (downloadLocks w)\<rparr>)")
  from cleanOldCache_writes[OF c] have f: "writes w1 = writes w" by simp
  from assms c f show ?thesis by (cases r) (auto simp: begin_download_def)
qed


lemma handleSongRequest_finishes:
  assumes "advance e config now (Requested session song fmt compress) w = (s1, w1)"
    and "advance e config now s1 w1 = (s2, w2)"
    and "advance e config now s2 w2 = (s3, w3)"
  shows "s3 = Finished \<and> handleSongRequest e config now session song fmt compress w = w3"
proof -
  from assms(1) have "lookup e config session song fmt compress w = (s1, w1)" by simp
  from lookup_cases[OF this] have "s1 = Finished \<or> (\<exists>p. s1 = Announcing p)" by blast
  then have "s2 = Finished \<or> (\<exists>p. s2 = Downloading p)"
  proof
    assume "s1 = Finished"
    with assms(2) show ?thesis by simp
  next
    assume "\<exists>p. s1 = Announcing p"
    then obtain p where "s1 = Announcing p" by blast
    with assms(2) have "begin_download config p w1 = (s2, w2)" by simp
    from begin_download_cases[OF this] show ?thesis by blast
  qed
  then have "s3 = Finished"
  proof
    assume "s2 = Finished"
    with assms(3) show ?thesis by simp
  next
    assume "\<exists>p. s2 = Downloading p"
    then obtain p where "s2 = Downloading p" by blast
    with assms(3) have "finish_download e config now p w2 = (s3, w3)" by simp
    then show ?thesis
      by (simp add: finish_download_def Let_def split: if_splits prod.splits sum.splits)
  qed
  then show ?thesis using assms by (simp add: handleSongRequest_def)
qed
















lemma ex_transcoded_delivery:
  "handleSongRequest (ex_env\<lparr>ffmpeg := True\<rparr>) ex_config 50 (requester ''u'') (track ''1'') None True
     ex_world =
     ex_world\<lparr>outbox := [Text ''compressing'', Song Audio ''/c/1_compressed.mp3'']\<rparr>"
  by (simp add: fetch_defs eval_defs ex_defs)









lemma stale_hit_is_cleared:
  assumes "faults w = []"
    and "filter (\<lambda>r. mc_id r = song_id song) (db w) = c # cs"
    and "cached c" and "truthy_path (cachePath c)" and "the (cachePath c) \<notin> files w"
  shows "lookup e config session song fmt compress w =
           resolve e config session song fmt compress None
             (w\<lparr>db := map (\<lambda>r. if mc_id r = song_id song
                                then r\<lparr>cached := False, cachePath := None\<rparr> else r) (db w)\<rparr>)"
  using assms
  by (simp add: lookup_def database_get_healthy database_set_healthy fs_access_def cong: if_cong)

text \<open>
  C8. A row with \<open>cached = true\<close> whose blob is gone: the request clears \<open>cached\<close> and
  \<open>cachePath\<close>, resolves and downloads, and then commits with \<open>create\<close> although the row
  exists, because \<open>cacheEntry\<close> was forgotten; the insert is rejected, the requester gets
  \<open>download-error\<close> and the row stays uncached beside the freshly written blob.
\<close>

theorem stale_hit_refetch_fails_at_commit:
  "handleSongRequest ex_env ex_config 50 (requester ''u'') (track ''1'') None False
     (empty_world\<lparr>db := [blob ''1'' 600000 30]\<rparr>) =
     \<lparr>db = [(blob ''1'' 600000 30)\<lparr>cached := False, cachePath := None\<rparr>], faults = [],
      files = {''/c/1.mp3''}, undeletable = {}, downloadLocks = {},
      outbox = [Text ''downloading'', Text ''download-error''], writes = [''/c/1.mp3'']\<rparr>"
  by (simp add: fetch_defs eval_defs ex_defs)

text \<open>
  C1. Two requests for the same track, resumed alternately: both pass the lock check of
  line 370 before either reaches \<open>downloadLocks.add\<close> of line 383, so both downloads are
  in flight for the same blob path at once, and both write it.
\<close>

theorem concurrent_requests_both_download:
  "schedule ex_env ex_config 50 [0, 1, 0, 1]
     ([Requested (requester ''u'') (track ''7'') None False,
       Requested (requester ''v'') (track ''7'') None False], empty_world) =
     ([Downloading \<lparr>p_session = requester ''u'', p_song = track ''7'', p_cacheEntry = None,
          p_urlInfo = ex_url ''7'' 320000, p_sanitizedId = ''7'', p_savePath = ''/c/7.mp3'',
          p_sendFormat = None, p_compress = False\<rparr>,
       Downloading \<lparr>p_session = requester ''v'', p_song = track ''7'', p_cacheEntry = None,
          p_urlInfo = ex_url ''7'' 320000, p_sanitizedId = ''7'', p_savePath = ''/c/7.mp3'',
          p_sendFormat = None, p_compress = False\<rparr>],
      empty_world\<lparr>downloadLocks := {''7''},
                  outbox := [Text ''downloading'', Text ''downloading'']\<rparr>)
   \<and> writes (snd (schedule ex_env ex_config 50 [0, 1, 0, 1, 0, 1]
        ([Requested (requester ''u'') (track ''7'') None False,
          Requested (requester ''v'') (track ''7'') None False], empty_world))) =
     [''/c/7.mp3'', ''/c/7.mp3'']"
  by (simp add: resume_def schedule_def fetch_defs eval_defs ex_defs)


section \<open>Properties of the rate limiter and the selection sessions\<close>

lemma checkRateLimit_stored:
  assumes "rateLimitEnabled config" and "rateLimitMap reg (limiterKey config session) = Some t0"
  shows "checkRateLimit config session now reg =
           (if int now - int t0 < rateLimitInterval config * 1000 then (False, reg)
            else (True, reg\<lparr>rateLimitMap := (rateLimitMap reg)(limiterKey config session \<mapsto> now)\<rparr>))"
  using assms by (simp add: checkRateLimit_def)

lemma gate_run_refines:
  assumes "rateLimitEnabled config"
  shows "rateLimitMap reg (limiterKey config session) = Some t0 \<Longrightarrow>
     gate_run config session ts reg =
       (gate_spec (rateLimitInterval config * 1000) t0 ts,
        reg\<lparr>rateLimitMap := (rateLimitMap reg)(limiterKey config session \<mapsto>
              last_accepted_spec (rateLimitInterval config * 1000) t0 ts)\<rparr>)"
proof (induction ts arbitrary: reg t0)
  case Nil
  then show ?case by (simp add: map_upd_triv)
next
  case (Cons t ts)
  show ?case
  proof (cases "int t - int t0 < rateLimitInterval config * 1000")
    case True
    then have "checkRateLimit config session t reg = (False, reg)"
      using checkRateLimit_stored[OF assms Cons.prems] by simp
    with True Cons.IH[OF Cons.prems] show ?thesis by simp
  next
    case False
    define reg1 where "reg1 = reg\<lparr>rateLimitMap := (rateLimitMap reg)(limiterKey config session \<mapsto> t)\<rparr>"
    have c: "checkRateLimit config session t reg = (True, reg1)"
      using checkRateLimit_stored[OF assms Cons.prems] False by (simp add: reg1_def)
    have s: "rateLimitMap reg1 (limiterKey config session) = Some t" by (simp add: reg1_def)
    have u: "reg1\<lparr>rateLimitMap := (rateLimitMap reg1)(limiterKey config session \<mapsto> x)\<rparr> =
             reg\<lparr>rateLimitMap := (rateLimitMap reg)(limiterKey config session \<mapsto> x)\<rparr>" for x
      by (simp add: reg1_def)
    have ih: "gate_run config session ts reg1 =
        (gate_spec (rateLimitInterval config * 1000) t ts,
         reg\<lparr>rateLimitMap := (rateLimitMap reg)(limiterKey config session \<mapsto>
               last_accepted_spec (rateLimitInterval config * 1000) t ts)\<rparr>)"
      using Cons.IH[OF s] unfolding u .
    have step: "gate_run config session (t # ts) reg =
        (True # fst (gate_run config session ts reg1), snd (gate_run config session ts reg1))"
      by (simp add: c split: prod.split)
    have gs: "gate_spec (rateLimitInterval config * 1000) t0 (t # ts) =
        True # gate_spec (rateLimitInterval config * 1000) t ts"
      and la: "last_accepted_spec (rateLimitInterval config * 1000) t0 (t # ts) =
        last_accepted_spec (rateLimitInterval config * 1000) t ts"
      using False by simp_all
    show ?thesis unfolding step ih gs la by (simp only: fst_conv snd_conv)
  qed
qed

lemma clearSearchSession_gone:
  "searchSessions reg sessionKey = Some ss \<Longrightarrow>
     searchSessions (clearSearchSession sessionKey reg) sessionKey = None \<and>
     timers (clearSearchSession sessionKey reg) (timeout_handle ss) = None"
  by (simp add: clearSearchSession_def)

lemma typing_key: "getSessionKey (typing x) = ''p:c:u''"
  by (simp add: getSessionKey_def typing_def requester_def channel_or_user_def)

lemma typing_input: "reply_input (typing x) = Some (trim x)"
  by (simp add: reply_input_def typing_def requester_def)

lemma choosing_session: "searchSessions choosing ''p:c:u'' = Some three_tracks"
  by (simp add: choosing_def)

lemmas session_defs = ncmget_def checkRateLimit_def limiterKey_def getSessionKey_def
  channel_or_user_def setTimeout_def clearSearchSession_def fireTimer_def forcedSendFormat_def
  no_options_def empty_registry_def search_twice_def


text \<open>
  C7. With rate limiting enabled and a limiter key whose stored timestamp is that of its
  last accepted call: a call is rejected iff less than the interval has elapsed since
  then; an accepted call stores the current time and a rejected one changes nothing, so
  over any sequence of calls the verdicts are those of the specified gate and the stored
  timestamp stays the time of the last accepted call; and the rejected command returns no
  text and sends nothing. A key without an entry is read as last accepted at time 0.
\<close>

theorem rate_limit_gate:
  assumes "rateLimitEnabled config"
  shows "(rateLimitMap reg (limiterKey config session) = Some t0 \<longrightarrow>
          checkRateLimit config session now reg =
            (if int now - int t0 < rateLimitInterval config * 1000 then (False, reg)
             else (True, reg\<lparr>rateLimitMap := (rateLimitMap reg)(limiterKey config session \<mapsto> now)\<rparr>))
          \<and> gate_run config session ts reg =
              (gate_spec (rateLimitInterval config * 1000) t0 ts,
               reg\<lparr>rateLimitMap := (rateLimitMap reg)(limiterKey config session \<mapsto>
                     last_accepted_spec (rateLimitInterval config * 1000) t0 ts)\<rparr>)
          \<and> (keyword \<noteq> [] \<and> int now - int t0 < rateLimitInterval config * 1000 \<longrightarrow>
               ncmget e config now session options keyword reg w = (None, reg, w)))
       \<and> (rateLimitMap reg (limiterKey config session) = None \<longrightarrow>
          checkRateLimit config session now reg =
            (if int now < rateLimitInterval config * 1000 then (False, reg)
             else (True, reg\<lparr>rateLimitMap := (rateLimitMap reg)(limiterKey config session \<mapsto> now)\<rparr>)))"
proof (intro conjI impI)
  assume st: "rateLimitMap reg (limiterKey config session) = Some t0"
  show "checkRateLimit config session now reg =
           (if int now - int t0 < rateLimitInterval config * 1000 then (False, reg)
            else (True, reg\<lparr>rateLimitMap := (rateLimitMap reg)(limiterKey config session \<mapsto> now)\<rparr>))"
    by (rule checkRateLimit_stored[OF assms st])
  show "gate_run config session ts reg =
           (gate_spec (rateLimitInterval config * 1000) t0 ts,
            reg\<lparr>rateLimitMap := (rateLimitMap reg)(limiterKey config session \<mapsto>
                  last_accepted_spec (rateLimitInterval config * 1000) t0 ts)\<rparr>)"
    by (rule gate_run_refines[OF assms st])
  assume "keyword \<noteq> [] \<and> int now - int t0 < rateLimitInterval config * 1000"
  then show "ncmget e config now session options keyword reg w = (None, reg, w)"
    using checkRateLimit_stored[OF assms st, of now] by (simp add: ncmget_def)
next
  assume "rateLimitMap reg (limiterKey config session) = None"
  then show "checkRateLimit config session now reg =
            (if int now < rateLimitInterval config * 1000 then (False, reg)
             else (True, reg\<lparr>rateLimitMap := (rateLimitMap reg)(limiterKey config session \<mapsto> now)\<rparr>))"
    using assms by (simp add: checkRateLimit_def)
qed

theorem rate_limit_gate_witness:
  "rateLimitEnabled ex_config
   \<and> rateLimitMap empty_registry (limiterKey ex_config (requester ''u'')) = None
   \<and> checkRateLimit ex_config (requester ''u'') 1700000000000 empty_registry =
        (True, empty_registry\<lparr>rateLimitMap := [''global'' \<mapsto> 1700000000000]\<rparr>)
   \<and> rateLimitMap (empty_registry\<lparr>rateLimitMap := [''global'' \<mapsto> 1700000000000]\<rparr>)
        (limiterKey ex_config (requester ''u'')) = Some 1700000000000
   \<and> checkRateLimit ex_config (requester ''u'') 1700000001000
        (empty_registry\<lparr>rateLimitMap := [''global'' \<mapsto> 1700000000000]\<rparr>) =
        (False, empty_registry\<lparr>rateLimitMap := [''global'' \<mapsto> 1700000000000]\<rparr>)
   \<and> checkRateLimit ex_config (requester ''u'') 1700000002500
        (empty_registry\<lparr>rateLimitMap := [''global'' \<mapsto> 1700000000000]\<rparr>) =
        (True, empty_registry\<lparr>rateLimitMap := [''global'' \<mapsto> 1700000002500]\<rparr>)
   \<and> fst (gate_run ex_config (requester ''u'') [1700000001000, 1700000002500, 1700000003000]
        (empty_registry\<lparr>rateLimitMap := [''global'' \<mapsto> 1700000000000]\<rparr>)) = [False, True, False]
   \<and> ncmget ex_env ex_config 1700000001000 (requester ''u'') no_options ''song''
        (empty_registry\<lparr>rateLimitMap := [''global'' \<mapsto> 1700000000000]\<rparr>) empty_world =
        (None, empty_registry\<lparr>rateLimitMap := [''global'' \<mapsto> 1700000000000]\<rparr>, empty_world)"
proof -
  let ?reg = "empty_registry\<lparr>rateLimitMap := [''global'' \<mapsto> 1700000000000]\<rparr>"
  have en: "rateLimitEnabled ex_config" by (simp add: ex_config_def)
  have k: "limiterKey ex_config (requester ''u'') = ''global''"
    by (simp add: limiterKey_def ex_config_def)
  have no: "rateLimitMap empty_registry (limiterKey ex_config (requester ''u'')) = None"
    by (simp add: empty_registry_def)
  have st: "rateLimitMap ?reg (limiterKey ex_config (requester ''u'')) = Some 1700000000000"
    by (simp add: k)
  have iv: "rateLimitInterval ex_config * 1000 = 2000" by (simp add: ex_config_def)
  note g0 = rate_limit_gate [OF en, where reg = empty_registry and session = "requester ''u''"
      and now = 1700000000000, THEN conjunct2, THEN mp, OF no]
  note g1 = rate_limit_gate [OF en, where reg = ?reg and session = "requester ''u''"
      and now = 1700000001000 and ts = "[1700000001000, 1700000002500, 1700000003000]"
      and keyword = "''song''" and e = ex_env and options = no_options and w = empty_world,
      THEN conjunct1, THEN mp, OF st]
  note g2 = rate_limit_gate [OF en, where reg = ?reg and session = "requester ''u''"
      and now = 1700000002500, THEN conjunct1, THEN mp, OF st]
  have f: "checkRateLimit ex_config (requester ''u'') 1700000000000 empty_registry =
        (True, empty_registry\<lparr>rateLimitMap := [''global'' \<mapsto> 1700000000000]\<rparr>)"
    by (subst g0) (simp add: iv k empty_registry_def)
  have a: "checkRateLimit ex_config (requester ''u'') 1700000001000 ?reg = (False, ?reg)"
    by (subst g1 [THEN conjunct1]) (simp add: iv)
  have b: "checkRateLimit ex_config (requester ''u'') 1700000002500 ?reg =
      (True, empty_registry\<lparr>rateLimitMap := [''global'' \<mapsto> 1700000002500]\<rparr>)"
    by (subst g2 [THEN conjunct1]) (simp add: iv k)
  have c: "fst (gate_run ex_config (requester ''u'')
      [1700000001000, 1700000002500, 1700000003000] ?reg) = [False, True, False]"
    by (subst g1 [THEN conjunct2, THEN conjunct1]) (simp add: iv)
  have d: "ncmget ex_env ex_config 1700000001000 (requester ''u'') no_options ''song''
        ?reg empty_world = (None, ?reg, empty_world)"
    using g1 [THEN conjunct2, THEN conjunct2] by (simp add: iv)
  show ?thesis
    by (intro conjI) (rule en no st f a b c d)+
qed


text \<open>
  C4. For a requester who holds a selection session with \<open>N\<close> candidates: a reply of
  decimal digits with value 0 cancels the session (it and its timer are removed,
  \<open>search-cancelled\<close> is sent); one with value \<open>k\<close>, \<open>1 \<le> k \<le> N\<close>, removes the session and
  hands candidate \<open>k - 1\<close> to \<open>handleSongRequest\<close>; a missing, empty, non-numeric or
  out-of-range reply is passed on and leaves registry and world unchanged.
\<close>

theorem selection_reply:
  assumes "searchSessions reg (getSessionKey session) = Some ss"
  shows "(reply_input session = Some input \<and> input \<noteq> [] \<and> list_all is_digit input \<and>
            parseInt input = 0 \<longrightarrow>
          middleware e config now session reg w =
            (True, clearSearchSession (getSessionKey session) reg,
             say (Text ''search-cancelled'') w)
          \<and> searchSessions (clearSearchSession (getSessionKey session) reg)
               (getSessionKey session) = None
          \<and> timers (clearSearchSession (getSessionKey session) reg) (timeout_handle ss) = None)
       \<and> (reply_input session = Some input \<and> input \<noteq> [] \<and> list_all is_digit input \<and>
            1 \<le> parseInt input \<and> parseInt input \<le> length (results ss) \<longrightarrow>
          middleware e config now session reg w =
            (True, clearSearchSession (getSessionKey session) reg,
             handleSongRequest e config now session (results ss ! (parseInt input - 1))
               (ss_sendFormat ss) (ss_compress ss) w)
          \<and> searchSessions (clearSearchSession (getSessionKey session) reg)
               (getSessionKey session) = None
          \<and> timers (clearSearchSession (getSessionKey session) reg) (timeout_handle ss) = None)
       \<and> (reply_input session = None \<or>
            (reply_input session = Some input \<and>
               (input = [] \<or> \<not> list_all is_digit input \<or> length (results ss) < parseInt input)) \<longrightarrow>
          middleware e config now session reg w = (False, reg, w))"
proof (intro conjI impI)
  assume h: "reply_input session = Some input \<and> input \<noteq> [] \<and> list_all is_digit input \<and>
            parseInt input = 0"
  then show "middleware e config now session reg w =
            (True, clearSearchSession (getSessionKey session) reg,
             say (Text ''search-cancelled'') w)"
    using assms by (simp add: middleware_def)
next
  assume h: "reply_input session = Some input \<and> input \<noteq> [] \<and> list_all is_digit input \<and>
            1 \<le> parseInt input \<and> parseInt input \<le> length (results ss)"
  then have i: "int (parseInt input) - 1 \<noteq> - 1" "0 \<le> int (parseInt input) - 1"
    "int (parseInt input) - 1 < int (length (results ss))"
    "nat (int (parseInt input) - 1) = parseInt input - 1" by auto
  from h show "middleware e config now session reg w =
            (True, clearSearchSession (getSessionKey session) reg,
             handleSongRequest e config now session (results ss ! (parseInt input - 1))
               (ss_sendFormat ss) (ss_compress ss) w)"
    using assms i by (simp add: middleware_def Let_def)
next
  assume h: "reply_input session = None \<or>
            (reply_input session = Some input \<and>
               (input = [] \<or> \<not> list_all is_digit input \<or> length (results ss) < parseInt input))"
  then show "middleware e config now session reg w = (False, reg, w)"
  proof
    assume "reply_input session = None"
    then show ?thesis using assms by (simp add: middleware_def)
  next
    assume a: "reply_input session = Some input \<and>
               (input = [] \<or> \<not> list_all is_digit input \<or> length (results ss) < parseInt input)"
    show ?thesis
    proof (cases "input = [] \<or> \<not> list_all is_digit input")
      case True
      with a assms show ?thesis by (auto simp: middleware_def)
    next
      case False
      with a have big: "length (results ss) < parseInt input" by blast
      then have "int (parseInt input) - 1 \<noteq> - 1"
        "\<not> (int (parseInt input) - 1 < int (length (results ss)))" by auto
      with a False assms show ?thesis by (simp add: middleware_def Let_def)
    qed
  qed
qed (use assms clearSearchSession_gone in blast)+


theorem selection_reply_witness:
  "searchSessions choosing (getSessionKey (typing ''2'')) = Some three_tracks
   \<and> middleware ex_env ex_config 50 (typing ''0'') choosing empty_world =
       (True, clearSearchSession ''p:c:u'' choosing, say (Text ''search-cancelled'') empty_world)
   \<and> searchSessions (clearSearchSession ''p:c:u'' choosing) ''p:c:u'' = None
   \<and> middleware ex_env ex_config 50 (typing ''2'') choosing empty_world =
       (True, clearSearchSession ''p:c:u'' choosing,
        handleSongRequest ex_env ex_config 50 (typing ''2'') (track ''2'') None False empty_world)
   \<and> middleware ex_env ex_config 50 (typing ''7'') choosing empty_world =
       (False, choosing, empty_world)
   \<and> middleware ex_env ex_config 50 (typing ''two'') choosing empty_world =
       (False, choosing, empty_world)"
proof -
  have s: "searchSessions choosing (getSessionKey (typing x)) = Some three_tracks" for x
    by (simp add: typing_key choosing_session)
  have t: "trim ''0'' = ''0''" "trim ''2'' = ''2''" "trim ''7'' = ''7''" "trim ''two'' = ''two''"
    by (simp_all add: trim_def js_space_def)
  have p: "parseInt ''0'' = 0" "parseInt ''2'' = 2" "parseInt ''7'' = 7"
    by (simp_all add: parseInt_def)
  note d = is_digit_def
  have r: "results three_tracks ! Suc 0 = track ''2''" "length (results three_tracks) = 3"
    "ss_sendFormat three_tracks = None" "ss_compress three_tracks = False"
    by (simp_all add: three_tracks_def)
  note zero = selection_reply [OF s, of "''0''" "''0''" ex_env ex_config 50 empty_world]
  note two = selection_reply [OF s, of "''2''" "''2''" ex_env ex_config 50 empty_world]
  note seven = selection_reply [OF s, of "''7''" "''7''" ex_env ex_config 50 empty_world]
  note word = selection_reply [OF s, of "''two''" "''two''" ex_env ex_config 50 empty_world]
  from zero have a: "middleware ex_env ex_config 50 (typing ''0'') choosing empty_world =
       (True, clearSearchSession ''p:c:u'' choosing, say (Text ''search-cancelled'') empty_world)"
    and b: "searchSessions (clearSearchSession ''p:c:u'' choosing) ''p:c:u'' = None"
    by (simp_all add: typing_key typing_input t p d)
  from two have c: "middleware ex_env ex_config 50 (typing ''2'') choosing empty_world =
       (True, clearSearchSession ''p:c:u'' choosing,
        handleSongRequest ex_env ex_config 50 (typing ''2'') (track ''2'') None False empty_world)"
    by (simp add: typing_key typing_input t p d r)
  from seven have e: "middleware ex_env ex_config 50 (typing ''7'') choosing empty_world =
       (False, choosing, empty_world)"
    by (simp add: typing_key typing_input t p d r)
  from word have f: "middleware ex_env ex_config 50 (typing ''two'') choosing empty_world =
       (False, choosing, empty_world)"
    by (simp add: typing_key typing_input t p d r)
  show ?thesis by (intro conjI) (rule s a b c e f)+
qed


text \<open>
  C3. A second search by the same requester replaces the session in the registry, but the
  timer of the replaced session is not cancelled: it stays pending, and when it fires, 10
  seconds into the 30 seconds of the replacement, its callback removes the replacement
  session and cancels the replacement's own timer.
\<close>

theorem replaced_session_killed_by_stale_timer:
  "timers search_twice 0 = Some (1700000030000, ''p:c:u'')
   \<and> timers search_twice 1 = Some (1700000050000, ''p:c:u'')
   \<and> map_option timeout_handle (searchSessions search_twice ''p:c:u'') = Some 1
   \<and> searchSessions (fireTimer 0 1700000030000 search_twice) ''p:c:u'' = None
   \<and> timers (fireTimer 0 1700000030000 search_twice) 1 = None"
  by (simp add: session_defs ex_defs Let_def)



section \<open>Properties of the request envelope\<close>

lemma smod_nonneg: "0 \<le> a \<Longrightarrow> 0 < m \<Longrightarrow> (a :: int) smod m = a mod m"
  by (cases "a = 0") (simp_all add: signed_modulo_int_def sgn_if)

lemma sdiv_two: "0 < e \<Longrightarrow> (e :: int) sdiv 2 = e div 2"
  by (simp add: signed_divide_int_def sgn_if)

lemma powMod_loop_correct:
  "1 < m \<Longrightarrow> 0 \<le> r \<Longrightarrow> r < m \<Longrightarrow> 0 \<le> b \<Longrightarrow>
     powMod_loop r b e m = (r * b ^ nat e) mod m"
proof (induction r b e m rule: powMod_loop.induct)
  case (1 result base ex modulus)
  show ?case
  proof (cases "ex > 0")
    case False
    then show ?thesis using "1.prems" by (simp add: powMod_loop.simps[of result base ex modulus])
  next
    case True
    define q where "q = ex div 2"
    have q: "ex sdiv 2 = q" using True by (simp add: sdiv_two q_def)
    have sm: "ex smod 2 = ex mod 2" using True by (simp add: smod_nonneg)
    have bb: "(base * base) smod modulus = (base * base) mod modulus"
      using "1.prems" by (simp add: smod_nonneg)
    have rb: "(result * base) smod modulus = (result * base) mod modulus"
      using "1.prems" by (simp add: smod_nonneg)
    define r' where "r' = (if ex smod 2 = 1 then (result * base) smod modulus else result)"
    have r'_bounds: "0 \<le> r'" "r' < modulus"
      using "1.prems" by (auto simp: r'_def rb)
    have b'_nonneg: "0 \<le> (base * base) smod modulus" using "1.prems" by (simp add: bb)
    have ih: "powMod_loop r' ((base * base) smod modulus) (ex sdiv 2) modulus =
              (r' * ((base * base) smod modulus) ^ nat (ex sdiv 2)) mod modulus"
      unfolding r'_def
      using "1.IH"[OF True "1.prems"(1) r'_bounds[unfolded r'_def] b'_nonneg] .
    have unfold: "powMod_loop result base ex modulus =
                  powMod_loop r' ((base * base) smod modulus) (ex sdiv 2) modulus"
      using True by (simp add: powMod_loop.simps[of result base ex modulus] r'_def)
    have sq: "((base * base) mod modulus) ^ nat q mod modulus = base ^ (2 * nat q) mod modulus"
      by (simp add: power_mod power_mult power2_eq_square)
    show ?thesis
    proof (cases "ex mod 2 = 1")
      case odd: True
      have "ex = 2 * (ex div 2) + ex mod 2" by simp
      with odd have "ex = 2 * q + 1" by (simp add: q_def)
      moreover have "0 \<le> q" using True by (simp add: q_def)
      ultimately have e: "nat ex = 2 * nat q + 1" by arith
      have "powMod_loop result base ex modulus =
            ((result * base) mod modulus * ((base * base) mod modulus) ^ nat q) mod modulus"
        using unfold ih odd by (simp add: r'_def sm rb bb q)
      also have "\<dots> = (result * base * base ^ (2 * nat q)) mod modulus"
        by (metis mod_mult_eq sq mod_mod_trivial)
      finally show ?thesis by (simp add: e mult.assoc)
    next
      case even: False
      then have "ex mod 2 = 0" by presburger
      moreover have "ex = 2 * (ex div 2) + ex mod 2" by simp
      ultimately have "ex = 2 * q" by (simp add: q_def)
      moreover have "0 \<le> q" using True by (simp add: q_def)
      ultimately have e: "nat ex = 2 * nat q" by arith
      have "powMod_loop result base ex modulus =
            (result * ((base * base) mod modulus) ^ nat q) mod modulus"
        using unfold ih even by (simp add: r'_def sm rb bb q)
      also have "\<dots> = (result * base ^ (2 * nat q)) mod modulus"
        by (metis mod_mult_right_eq sq)
      finally show ?thesis by (simp add: e)
    qed
  qed
qed

lemma powMod_correct:
  assumes "1 < m" "0 \<le> b"
  shows "powMod b e m = Inr (b ^ nat e mod m)"
proof -
  have "powMod_loop 1 (b smod m) e m = (1 * (b smod m) ^ nat e) mod m"
    using assms by (intro powMod_loop_correct) (simp_all add: smod_nonneg)
  then show ?thesis using assms by (simp add: powMod_def smod_nonneg power_mod)
qed

lemma hexval_hexdigit: "d < 16 \<Longrightarrow> hexval (hexdigit d) = Some d"
  by (auto simp: hexval_def hexdigit_def Let_def)

lemma parse_hex_append:
  "parse_hex n (xs @ ys) = (case parse_hex n xs of None \<Rightarrow> None | Some k \<Rightarrow> parse_hex k ys)"
  by (induction xs arbitrary: n) (auto split: option.splits)

lemma parse_hex_bytes:
  "\<forall>b \<in> set bs. b < 256 \<Longrightarrow>
     parse_hex n (toString_hex bs) = Some (foldl (\<lambda>n b. 256 * n + int b) n bs)"
proof (induction bs arbitrary: n)
  case Nil
  then show ?case by (simp add: toString_hex_def)
next
  case (Cons b bs)
  then have b: "b < 256" and rest: "\<forall>b \<in> set bs. b < 256" by auto
  have hi: "b div 16 < 16" and lo: "b mod 16 < 16" using b by auto
  have split: "toString_hex (b # bs) = [hexdigit (b div 16), hexdigit (b mod 16)] @ toString_hex bs"
    by (simp add: toString_hex_def)
  have "int b = 16 * int (b div 16) + int (b mod 16)" by presburger
  then have val: "256 * n + 16 * int (b div 16) + int (b mod 16) = 256 * n + int b" by simp
  show ?case
    unfolding split
    by (simp add: hexval_hexdigit[OF hi] hexval_hexdigit[OF lo] val Cons.IH[OF rest])
qed

lemma of_char_bound: "(of_char c :: nat) < 256"
  by (metis of_char_mod_256 mod_less_divisor zero_less_numeral)

lemma utf8_bound:
  assumes "b \<in> set (utf8 c)"
  shows "b < 256"
proof -
  have "(of_char c :: nat) div 64 < 4"
    using of_char_bound[of c] by (simp add: div_less_iff_less_mult)
  moreover have "(of_char c :: nat) mod 64 < 64" by simp
  ultimately show ?thesis
    using assms of_char_bound[of c] by (auto simp: utf8_def Let_def split: if_splits)
qed

lemma utf8_bytes: "\<forall>b \<in> set (Buffer_from s). b < 256"
  by (auto simp: Buffer_from_def dest: utf8_bound)

lemma Buffer_from_ascii:
  "\<forall>c \<in> set s. (of_char c :: nat) < 128 \<Longrightarrow> Buffer_from s = map of_char s"
  by (induction s) (auto simp: Buffer_from_def utf8_def)

lemma Buffer_from_rev:
  assumes "\<forall>c \<in> set s. (of_char c :: nat) < 128"
  shows "Buffer_from (rev s) = rev (Buffer_from s)"
proof -
  have "\<forall>c \<in> set (rev s). (of_char c :: nat) < 128" using assms by simp
  then have "Buffer_from (rev s) = map of_char (rev s)" by (rule Buffer_from_ascii)
  also have "\<dots> = rev (map of_char s)" by (simp add: rev_map)
  also have "\<dots> = rev (Buffer_from s)" using Buffer_from_ascii[OF assms] by simp
  finally show ?thesis .
qed

lemma is_alnum_ascii: "is_alnum c \<Longrightarrow> (of_char c :: nat) < 128"
  by (auto simp: is_alnum_def Let_def)

lemma alphabet_alnum: "list_all is_alnum alphabet"
  by (simp add: alphabet_def is_alnum_def)

lemma length_alphabet: "length alphabet = 62"
  by (simp add: alphabet_def)

lemma secKey_props:
  assumes "\<forall>i<16. rand i < 62"
  shows "length (secKey_of rand) = 16" and "list_all is_alnum (secKey_of rand)"
proof -
  show "length (secKey_of rand) = 16" by (simp add: secKey_of_def)
  have "is_alnum (alphabet ! rand i)" if "i < 16" for i
    using alphabet_alnum assms that by (simp add: list_all_length length_alphabet)
  then show "list_all is_alnum (secKey_of rand)"
    by (simp add: secKey_of_def list_all_iff)
qed

lemma bigint_nonneg: "0 \<le> n \<Longrightarrow> 0 \<le> foldl (\<lambda>n b. 256 * n + int b) n bs"
  by (induction bs arbitrary: n) auto

lemma rsa_constants: "1 < rsa_modulus" "rsa_modulus < 16 ^ 256" "nat rsa_exponent = 65537"
  by (simp_all add: rsa_modulus_def rsa_exponent_def)

lemma rsaEncrypt_spec:
  assumes "s \<noteq> []" and "list_all is_alnum s"
  shows "rsaEncrypt s =
     Inr (padStart 256 (CHR ''0'')
            (toString16 (bigint_of_bytes (rev (Buffer_from s)) ^ 65537 mod rsa_modulus)))"
proof -
  have ascii: "\<forall>c \<in> set s. (of_char c :: nat) < 128"
    using assms(2) by (auto simp: list_all_iff dest: is_alnum_ascii)
  have bytes: "Buffer_from (rev s) = rev (Buffer_from s)" by (rule Buffer_from_rev[OF ascii])
  have "Buffer_from s \<noteq> []" using assms(1) Buffer_from_ascii[OF ascii] by simp
  then have ne: "toString_hex (Buffer_from (rev s)) \<noteq> []"
    unfolding bytes by (cases "rev (Buffer_from s)") (simp_all add: toString_hex_def)
  have parse: "parse_hex 0 (toString_hex (Buffer_from (rev s))) =
               Some (bigint_of_bytes (rev (Buffer_from s)))"
    using parse_hex_bytes[OF utf8_bytes, of 0 "rev s"] by (simp add: bigint_of_bytes_def bytes)
  have big: "BigInt_0x (toString_hex (Buffer_from (rev s))) = Inr (bigint_of_bytes (rev (Buffer_from s)))"
    using ne parse by (simp add: BigInt_0x_def)
  have nonneg: "0 \<le> bigint_of_bytes (rev (Buffer_from s))"
    by (simp add: bigint_of_bytes_def bigint_nonneg)
  have pm: "powMod (bigint_of_bytes (rev (Buffer_from s))) rsa_exponent rsa_modulus =
            Inr (bigint_of_bytes (rev (Buffer_from s)) ^ 65537 mod rsa_modulus)"
    using powMod_correct[OF rsa_constants(1) nonneg, of rsa_exponent] by (simp add: rsa_constants(3))
  show ?thesis by (simp add: rsaEncrypt_def Let_def big pm)
qed


lemma hex_of_nat_length: "n < 16 ^ k \<Longrightarrow> 0 < k \<Longrightarrow> length (hex_of_nat n) \<le> k"
proof (induction n arbitrary: k rule: hex_of_nat.induct)
  case (1 n)
  show ?case
  proof (cases "n < 16")
    case True
    with "1.prems" show ?thesis by (simp add: hex_of_nat.simps[of n])
  next
    case False
    obtain j where k: "k = Suc j" using "1.prems"(2) by (cases k) auto
    have "n div 16 < 16 ^ j" using "1.prems"(1) k by (simp add: div_less_iff_less_mult)
    moreover have "0 < j" using False "1.prems"(1) k by (cases j) auto
    ultimately have "length (hex_of_nat (n div 16)) \<le> j" using "1.IH"[OF False] by blast
    with False k show ?thesis by (simp add: hex_of_nat.simps[of n])
  qed
qed

lemma hex_of_nat_digits: "list_all (\<lambda>c. hexval c \<noteq> None) (hex_of_nat n)"
proof (induction n rule: hex_of_nat.induct)
  case (1 n)
  show ?case
  proof (cases "n < 16")
    case True
    then show ?thesis by (simp add: hex_of_nat.simps[of n] hexval_hexdigit)
  next
    case False
    have "n mod 16 < 16" by simp
    then have "hexval (hexdigit (n mod 16)) \<noteq> None" by (simp only: hexval_hexdigit) simp
    with "1.IH"[OF False] False show ?thesis by (simp add: hex_of_nat.simps[of n])
  qed
qed

lemma padded_hex:
  assumes "0 \<le> x" "x < 16 ^ 256"
  shows "length (padStart 256 (CHR ''0'') (toString16 x)) = 256"
    and "list_all (\<lambda>c. hexval c \<noteq> None) (padStart 256 (CHR ''0'') (toString16 x))"
proof -
  have "nat x < 16 ^ 256" using assms by (simp add: nat_less_iff)
  then have len: "length (hex_of_nat (nat x)) \<le> 256" by (rule hex_of_nat_length) simp
  have ts: "toString16 x = hex_of_nat (nat x)" using assms(1) by (simp add: toString16_def)
  show "length (padStart 256 (CHR ''0'') (toString16 x)) = 256"
    using len by (simp add: padStart_def ts)
  have z: "hexval (CHR ''0'') \<noteq> None" by (simp add: hexval_def)
  have zs: "list_all (\<lambda>c. hexval c \<noteq> None) (replicate k (CHR ''0''))" for k
    using z by (induction k) simp_all
  have "list_all (\<lambda>c. hexval c \<noteq> None)
          (replicate (256 - length (hex_of_nat (nat x))) (CHR ''0'') @ hex_of_nat (nat x))"
    unfolding list_all_append using zs hex_of_nat_digits by (rule conjI)
  then show "list_all (\<lambda>c. hexval c \<noteq> None) (padStart 256 (CHR ''0'') (toString16 x))"
    unfolding padStart_def ts .
qed


lemma alphabet_codes:
  "\<forall>n \<in> set [97..<123] \<union> set [65..<91] \<union> set [48..<58]. n \<in> (of_char ` set alphabet :: nat set)"
  by (simp add: upt_rec alphabet_def)

lemma alnum_in_alphabet: "is_alnum c \<Longrightarrow> c \<in> set alphabet"
proof -
  assume a: "is_alnum c"
  define n where "n = (of_char c :: nat)"
  have "(97 \<le> n \<and> n < 123) \<or> (65 \<le> n \<and> n < 91) \<or> (48 \<le> n \<and> n < 58)"
    using a unfolding is_alnum_def Let_def n_def by arith
  then have "n \<in> set [97..<123] \<union> set [65..<91] \<union> set [48..<58]"
    by (simp only: set_upt atLeastLessThan_iff Un_iff) blast
  with alphabet_codes have "n \<in> (of_char ` set alphabet :: nat set)" by blast
  then obtain d where d: "d \<in> set alphabet" "(of_char d :: nat) = of_char c"
    unfolding n_def by (metis imageE)
  from d(2) have "d = c" by simp
  with d(1) show ?thesis by simp
qed

lemma alphabet_is_alnum: "set alphabet = {c. is_alnum c}"
  using alnum_in_alphabet alphabet_alnum by (auto simp: list_all_iff)

lemma distinct_alphabet: "distinct alphabet"
  by (simp add: alphabet_def)

lemma secKey_nth: "i < 16 \<Longrightarrow> secKey_of rand ! i = alphabet ! rand i"
  by (simp add: secKey_of_def)

lemma every_secret_drawn:
  assumes "length s = 16" and "list_all is_alnum s"
  shows "\<exists>draw. (\<forall>i<16. draw i < 62) \<and> secKey_of draw = s"
proof -
  have "\<forall>i. \<exists>j. i < 16 \<longrightarrow> j < 62 \<and> alphabet ! j = s ! i"
  proof
    fix i
    show "\<exists>j. i < 16 \<longrightarrow> j < 62 \<and> alphabet ! j = s ! i"
    proof (cases "i < 16")
      case True
      then have "is_alnum (s ! i)" using assms by (simp add: list_all_length)
      then have "s ! i \<in> set alphabet" by (rule alnum_in_alphabet)
      then obtain j where "j < length alphabet" "alphabet ! j = s ! i"
        by (auto simp: in_set_conv_nth)
      then show ?thesis by (auto simp: length_alphabet)
    next
      case False
      then show ?thesis by simp
    qed
  qed
  then have "\<exists>draw. \<forall>i. i < 16 \<longrightarrow> draw i < 62 \<and> alphabet ! draw i = s ! i"
    by (rule choice)
  then obtain draw where d: "\<forall>i. i < 16 \<longrightarrow> draw i < 62 \<and> alphabet ! draw i = s ! i"
    by blast
  have "secKey_of draw = s"
  proof (rule nth_equalityI)
    show "length (secKey_of draw) = length s" using assms(1) by (simp add: secKey_of_def)
  next
    fix i assume "i < length (secKey_of draw)"
    then have "i < 16" by (simp add: secKey_of_def)
    then show "secKey_of draw ! i = s ! i" using d by (simp add: secKey_nth)
  qed
  with d show ?thesis by blast
qed

text \<open>
  C9. For every payload and every secret drawn with indices below 62: the secret has 16
  characters, the \<open>i\<close>-th being the character of the alphabet at the \<open>i\<close>-th index drawn;
  the alphabet is the set of ASCII letters and digits, so the secret is alphanumeric, and
  every string of 16 alphanumeric characters is the secret of some draws; \<open>weapi\<close>
  returns exactly the two form fields of the specified transform (the payload serialized
  and enciphered with the fixed IV first under the shared secret, then under the random
  secret; the random secret as the big integer of its reversed bytes, raised to the
  exponent 65537 modulo the fixed modulus, in hex, left-padded to 256 digits); and the
  second field is 256 hex digits long.
\<close>

theorem weapi_is_envelope_spec:
  assumes "\<forall>i<16. rand i < 62"
  shows "length (secKey_of rand) = 16
       \<and> (\<forall>i<16. secKey_of rand ! i = alphabet ! rand i)
       \<and> set alphabet = {c. is_alnum c}
       \<and> list_all is_alnum (secKey_of rand)
       \<and> (\<forall>s. length s = 16 \<and> list_all is_alnum s \<longrightarrow>
             (\<exists>draw. (\<forall>i<16. draw i < 62) \<and> secKey_of draw = s))
       \<and> weapi cipher stringify rand params =
           Inr (envelope_spec cipher stringify (secKey_of rand) params)
       \<and> (\<exists>encSecKey. rsaEncrypt (secKey_of rand) = Inr encSecKey \<and> length encSecKey = 256 \<and>
            list_all (\<lambda>c. hexval c \<noteq> None) encSecKey)"
proof -
  note key = secKey_props[OF assms]
  have ne: "secKey_of rand \<noteq> []" using key(1) by auto
  note rsa = rsaEncrypt_spec[OF ne key(2)]
  define x where "x = bigint_of_bytes (rev (Buffer_from (secKey_of rand))) ^ 65537 mod rsa_modulus"
  have "0 \<le> x" "x < rsa_modulus" using rsa_constants(1) by (simp_all add: x_def)
  then have x: "0 \<le> x" "x < 16 ^ 256" using rsa_constants(2) by simp_all
  have w: "weapi cipher stringify rand params =
           Inr (envelope_spec cipher stringify (secKey_of rand) params)"
    by (simp add: weapi_def Let_def rsa envelope_spec_def aesEncrypt_def)
  have r: "rsaEncrypt (secKey_of rand) = Inr (padStart 256 (CHR ''0'') (toString16 x))"
    using rsa by (simp add: x_def)
  have n: "\<forall>i<16. secKey_of rand ! i = alphabet ! rand i" by (simp add: secKey_nth)
  have s: "\<forall>s. length s = 16 \<and> list_all is_alnum s \<longrightarrow>
             (\<exists>draw. (\<forall>i<16. draw i < 62) \<and> secKey_of draw = s)"
    using every_secret_drawn by blast
  have e: "\<exists>encSecKey. rsaEncrypt (secKey_of rand) = Inr encSecKey \<and> length encSecKey = 256 \<and>
            list_all (\<lambda>c. hexval c \<noteq> None) encSecKey"
    using r padded_hex[OF x] by blast
  from key(1) n alphabet_is_alnum key(2) s w e show ?thesis by (intro conjI)
qed

theorem weapi_is_envelope_spec_witness:
  "list_all (\<lambda>i. (7 * i + 3) mod 62 < 62) [0..<16]
   \<and> secKey_of (\<lambda>i. (7 * i + 3) mod 62) = ''dkryFMT07elszGNU''
   \<and> ''dkryFMT07elszGNU'' ! 4 = alphabet ! 31
   \<and> length ''0123456789abcdef'' = 16 \<and> list_all is_alnum ''0123456789abcdef''
   \<and> (\<exists>draw. list_all (\<lambda>i. draw i < 62) [0..<16] \<and> secKey_of draw = ''0123456789abcdef'')
   \<and> weapi (\<lambda>key iv text. key @ iv @ text) (\<lambda>p. p) (\<lambda>i. (7 * i + 3) mod 62) ''{}'' =
       Inr (envelope_spec (\<lambda>key iv text. key @ iv @ text) (\<lambda>p. p) ''dkryFMT07elszGNU'' ''{}'')"
proof -
  have h: "\<forall>i<16. (\<lambda>i. (7 * i + 3) mod 62) i < (62 :: nat)" by simp
  have k: "secKey_of (\<lambda>i. (7 * i + 3) mod 62) = ''dkryFMT07elszGNU''"
    by (simp add: secKey_of_def alphabet_def upt_rec)
  have l: "list_all (\<lambda>i. (7 * i + 3) mod 62 < 62) [0..<16]" by (simp add: list_all_iff)
  note inst = weapi_is_envelope_spec [OF h, of "\<lambda>key iv text. key @ iv @ text" "\<lambda>p. p" "''{}''"]
  have four: "(4 :: nat) < 16" by simp
  have n: "''dkryFMT07elszGNU'' ! 4 = alphabet ! 31"
    using inst[THEN conjunct2, THEN conjunct1, THEN spec, THEN mp, OF four] unfolding k by simp
  have q: "length ''0123456789abcdef'' = 16 \<and> list_all is_alnum ''0123456789abcdef''"
    by (simp add: is_alnum_def)
  from inst[THEN conjunct2, THEN conjunct2, THEN conjunct2, THEN conjunct2, THEN conjunct1,
      THEN spec, THEN mp, OF q]
  have ex: "\<exists>draw. (\<forall>i<16. draw i < 62) \<and> secKey_of draw = ''0123456789abcdef''" .
  have conv: "list_all P [0..<16] = (\<forall>i<16. P i)" for P :: "nat \<Rightarrow> bool"
    by (auto simp: list_all_iff)
  have d: "\<exists>draw. list_all (\<lambda>i. draw i < 62) [0..<16] \<and> secKey_of draw = ''0123456789abcdef''"
    using ex by (simp only: conv)
  note w = inst[THEN conjunct2, THEN conjunct2, THEN conjunct2, THEN conjunct2, THEN conjunct2,
      THEN conjunct1, unfolded k]
  from q have q1: "length ''0123456789abcdef'' = 16" and q2: "list_all is_alnum ''0123456789abcdef''"
    by simp_all
  from l k n q1 q2 d w show ?thesis by (intro conjI)
qed


end
